theory Spec2Isabelle
  imports Complex_Main "HOL-Library.Sublist"
begin

section \<open>Strings and the two regular expressions of types.ts\<close>

text \<open>
  A JavaScript string is a sequence of UTF-16 code units. The model has the code units 0 to
  255 (the Latin-1 range, \<open>Latin c\<close>) and, of the code units above them, the two that a
  regular expression treats specially: the line separator U+2028 and the paragraph
  separator U+2029. On these code units the definitions below are those of JavaScript:
  \<^item> \<open>.\<close> (without the \<open>s\<close> flag) matches every code unit except the four line
    terminators: line feed, carriage return, line separator, paragraph separator;
  \<^item> \<open>\w\<close> (without the \<open>u\<close> and \<open>i\<close> flags) is the class \<open>[A-Za-z0-9_]\<close>;
  \<^item> \<open>toLowerCase\<close> maps \<open>A-Z\<close> and the upper-case letters 0xC0 to 0xDE (0xD7, the
    multiplication sign, apart) to the code unit 32 higher and leaves every other code unit
    of the model alone.
  The code units left out, those above 255 other than the two separators, are ordinary
  characters to both patterns: none is a delimiter, a line terminator or a word character.
  \<open>js\<close> reads a string literal as a JavaScript string.
\<close>

datatype codeUnit = Latin char | LineSeparator | ParagraphSeparator

type_synonym jsString = "codeUnit list"

abbreviation js :: "string \<Rightarrow> jsString" where
  "js s \<equiv> map Latin s"

definition isLineTerminator :: "codeUnit \<Rightarrow> bool" where
  "isLineTerminator c =
     (c = Latin (CHR 0x0A) \<or> c = Latin (CHR 0x0D) \<or> c = LineSeparator \<or> c = ParagraphSeparator)"

definition isWordChar :: "codeUnit \<Rightarrow> bool" where
  "isWordChar c =
     (case c of
        Latin a \<Rightarrow> a \<in> set ''abcdefghijklmnopqrstuvwxyzABCDEFGHIJKLMNOPQRSTUVWXYZ0123456789_''
      | LineSeparator \<Rightarrow> False
      | ParagraphSeparator \<Rightarrow> False)"

definition isUpperCase :: "char \<Rightarrow> bool" where
  "isUpperCase c =
     (let n = (of_char c :: nat)
      in (65 \<le> n \<and> n \<le> 90) \<or> (192 \<le> n \<and> n \<le> 222 \<and> n \<noteq> 215))"

text \<open>Adding 32 to an upper-case code unit sets its bit 5, which is clear in all of them.\<close>

definition lowerChar :: "char \<Rightarrow> char" where
  "lowerChar c =
     (if isUpperCase c
      then (case c of Char b0 b1 b2 b3 b4 b5 b6 b7 \<Rightarrow> Char b0 b1 b2 b3 b4 True b6 b7)
      else c)"

fun lowerUnit :: "codeUnit \<Rightarrow> codeUnit" where
  "lowerUnit (Latin c) = Latin (lowerChar c)"
| "lowerUnit LineSeparator = LineSeparator"
| "lowerUnit ParagraphSeparator = ParagraphSeparator"

definition toLowerCase :: "jsString \<Rightarrow> jsString" where
  "toLowerCase s = map lowerUnit s"

subsection \<open>\<open>/\[\[(.*?)\]\]/g\<close>\<close>

text \<open>
  \<open>lazyCapture s\<close> is the part \<open>(.*?)\]\]\<close> of the pattern, tried on \<open>s\<close>: the lazy
  quantifier takes the shortest run of non-terminator code units after which \<open>]]\<close> follows.
  The result is the captured group and the input left after the match.
\<close>

fun lazyCapture :: "jsString \<Rightarrow> (jsString \<times> jsString) option" where
  "lazyCapture [] = None"
| "lazyCapture (c # cs) =
     (if prefix (js '']]'') (c # cs) then Some ([], drop 2 (c # cs))
      else if isLineTerminator c then None
      else (case lazyCapture cs of
              None \<Rightarrow> None
            | Some (cap, rest) \<Rightarrow> Some (c # cap, rest)))"

text \<open>The whole pattern, tried at the first position of \<open>s\<close>.\<close>

definition linkMatchAt :: "jsString \<Rightarrow> (jsString \<times> jsString) option" where
  "linkMatchAt s = (if prefix (js ''[['') s then lazyCapture (drop 2 s) else None)"

text \<open>
  \<open>regex.exec(content)\<close> with the \<open>g\<close> flag: the argument is the content from
  \<open>lastIndex\<close> on; the search tries each start position in turn, and a match returns
  group 1 together with the content from the new \<open>lastIndex\<close> on. \<open>None\<close> is \<open>null\<close>.
\<close>

fun linkExec :: "jsString \<Rightarrow> (jsString \<times> jsString) option" where
  "linkExec [] = None"
| "linkExec (c # cs) =
     (case linkMatchAt (c # cs) of
        Some m \<Rightarrow> Some m
      | None \<Rightarrow> linkExec cs)"

subsection \<open>\<open>/#(\w+)/g\<close>\<close>

text \<open>
  The greedy \<open>\w+\<close> takes the longest run of word characters; nothing follows it in the
  pattern, so there is no backtracking into it.
\<close>

definition tagMatchAt :: "jsString \<Rightarrow> (jsString \<times> jsString) option" where
  "tagMatchAt s =
     (case s of
        [] \<Rightarrow> None
      | c # cs \<Rightarrow>
          if c = Latin (CHR ''#'') \<and> takeWhile isWordChar cs \<noteq> []
          then Some (takeWhile isWordChar cs, dropWhile isWordChar cs)
          else None)"

fun tagExec :: "jsString \<Rightarrow> (jsString \<times> jsString) option" where
  "tagExec [] = None"
| "tagExec (c # cs) =
     (case tagMatchAt (c # cs) of
        Some m \<Rightarrow> Some m
      | None \<Rightarrow> tagExec cs)"

section \<open>The extractor (types.ts)\<close>

text \<open>
  \<^verbatim>\<open>while ((match = regex.exec(content)) !== null) { matches.push(match[1]); }\<close>
  Every match consumes at least one code unit, which is what makes the loop end.
\<close>

function extractLinksFrom :: "jsString \<Rightarrow> jsString list" where
  "extractLinksFrom s =
     (case linkExec s of
        None \<Rightarrow> []
      | Some (cap, rest) \<Rightarrow> cap # extractLinksFrom rest)"
  by pat_completeness auto
termination
proof (relation "measure length")
  show "wf (measure (length :: jsString \<Rightarrow> nat))"
    by simp
next
  fix s :: jsString and m cap rest
  assume exec: "linkExec s = Some m" and m: "(cap, rest) = m"
  have lazy: "lazyCapture t = Some (a, b) \<Longrightarrow> length b < length t" for t a b
    by (induction t arbitrary: a) (auto split: if_splits option.splits)
  have at: "linkMatchAt t = Some (a, b) \<Longrightarrow> length b < length t" for t a b
    by (auto simp: linkMatchAt_def dest!: lazy split: if_splits)
  have "linkExec t = Some (a, b) \<Longrightarrow> length b < length t" for t a b
    by (induction t) (auto dest!: at split: option.splits)
  with exec m show "(rest, s) \<in> measure length"
    by auto
qed

definition extractLinks :: "jsString \<Rightarrow> jsString list" where
  "extractLinks content = extractLinksFrom content"

function extractTagsFrom :: "jsString \<Rightarrow> jsString list" where
  "extractTagsFrom s =
     (case tagExec s of
        None \<Rightarrow> []
      | Some (cap, rest) \<Rightarrow> cap # extractTagsFrom rest)"
  by pat_completeness auto
termination
proof (relation "measure length")
  show "wf (measure (length :: jsString \<Rightarrow> nat))"
    by simp
next
  fix s :: jsString and m cap rest
  assume exec: "tagExec s = Some m" and m: "(cap, rest) = m"
  have at: "tagMatchAt t = Some (a, b) \<Longrightarrow> length b < length t" for t a b
    by (auto simp: tagMatchAt_def less_Suc_eq_le length_dropWhile_le
        split: list.splits if_splits)
  have "tagExec t = Some (a, b) \<Longrightarrow> length b < length t" for t a b
    by (induction t) (auto dest!: at split: option.splits)
  with exec m show "(rest, s) \<in> measure length"
    by auto
qed

definition extractTags :: "jsString \<Rightarrow> jsString list" where
  "extractTags content = extractTagsFrom content"

declare extractLinksFrom.simps [simp del]
declare extractTagsFrom.simps [simp del]

section \<open>Data model (types.ts)\<close>

text \<open>
  The fields of \<open>Note\<close>, \<open>GraphNode\<close> and \<open>GraphLink\<close> carry the interface's name as a
  prefix, since \<open>id\<close> is taken in HOL and two interfaces share \<open>id\<close> and \<open>title\<close>.
\<close>

record Note =
  note_id :: jsString
  note_title :: jsString
  note_content :: jsString
  note_folder :: jsString
  note_createdAt :: int
  note_updatedAt :: int
  note_tags :: "jsString list"

text \<open>An optional numeric property: absent, \<open>null\<close>, or a number.\<close>

datatype jsnumber = Undefined | Null | Number real

record GraphNode =
  node_id :: jsString
  node_title :: jsString
  node_group :: nat
  node_x :: jsnumber
  node_y :: jsnumber
  node_fx :: jsnumber
  node_fy :: jsnumber

record GraphLink =
  link_source :: jsString
  link_target :: jsString

section \<open>Containers of the JavaScript runtime\<close>

text \<open>
  \<open>new Map(entries)\<close> sets the entries in order, so a later entry replaces an earlier one
  with the same key. String keys are compared by value.
\<close>

definition mapFromEntries :: "('k \<times> 'v) list \<Rightarrow> ('k \<rightharpoonup> 'v)" where
  "mapFromEntries entries = foldl (\<lambda>m (k, v). m(k \<mapsto> v)) Map.empty entries"

text \<open>
  A \<open>Set<string>\<close> keeps its members in insertion order and \<open>add\<close> leaves a set that has the
  member as it is: a list without repetitions.
\<close>

type_synonym stringSet = "jsString list"

definition setAdd :: "stringSet \<Rightarrow> jsString \<Rightarrow> stringSet" where
  "setAdd s v = (if v \<in> set s then s else s @ [v])"

definition setHas :: "stringSet \<Rightarrow> jsString \<Rightarrow> bool" where
  "setHas s v = (v \<in> set s)"

type_synonym connections = "jsString \<rightharpoonup> stringSet"

datatype jsError = TypeError

section \<open>The graph builder (GraphView)\<close>

subsection \<open>\<open>connectionMap\<close>\<close>

definition titleToId :: "Note list \<Rightarrow> (jsString \<rightharpoonup> jsString)" where
  "titleToId notes =
     mapFromEntries (map (\<lambda>n. (toLowerCase (note_title n), note_id n)) notes)"

text \<open>
  The body of the guarded branch. \<open>map.get(k)!.add(v)\<close> throws a TypeError when the key is
  missing: the non-null assertion is erased at run time.
\<close>

definition getAdd :: "connections \<Rightarrow> jsString \<Rightarrow> jsString \<Rightarrow> jsError + connections" where
  "getAdd m k v =
     (case m k of
        None \<Rightarrow> Inl TypeError
      | Some s \<Rightarrow> Inr (m(k \<mapsto> setAdd s v)))"

definition connect :: "connections \<Rightarrow> jsString \<Rightarrow> jsString \<Rightarrow> jsError + connections" where
  "connect m sourceId targetId =
     (let m1 = (if m sourceId = None then m(sourceId \<mapsto> []) else m);
          m2 = (if m1 targetId = None then m1(targetId \<mapsto> []) else m1)
      in case getAdd m2 sourceId targetId of
           Inl e \<Rightarrow> Inl e
         | Inr m3 \<Rightarrow> getAdd m3 targetId sourceId)"

text \<open>
  \<open>links.forEach(linkedTitle => ...)\<close>. \<open>if (targetId)\<close> is false for a missing key and for
  the empty string.
\<close>

fun connectLinks ::
  "(jsString \<rightharpoonup> jsString) \<Rightarrow> jsString \<Rightarrow> jsString list \<Rightarrow> connections \<Rightarrow> jsError + connections"
where
  "connectLinks tti sourceId [] m = Inr m"
| "connectLinks tti sourceId (linkedTitle # links) m =
     (case tti (toLowerCase linkedTitle) of
        None \<Rightarrow> connectLinks tti sourceId links m
      | Some targetId \<Rightarrow>
          if targetId = [] then connectLinks tti sourceId links m
          else (case connect m sourceId targetId of
                  Inl e \<Rightarrow> Inl e
                | Inr m' \<Rightarrow> connectLinks tti sourceId links m'))"

text \<open>\<open>notes.forEach(source => ...)\<close>\<close>

fun connectNotes ::
  "(jsString \<rightharpoonup> jsString) \<Rightarrow> Note list \<Rightarrow> connections \<Rightarrow> jsError + connections"
where
  "connectNotes tti [] m = Inr m"
| "connectNotes tti (source # notes) m =
     (case connectLinks tti (note_id source) (extractLinks (note_content source)) m of
        Inl e \<Rightarrow> Inl e
      | Inr m' \<Rightarrow> connectNotes tti notes m')"

definition connectionMap :: "Note list \<Rightarrow> jsError + connections" where
  "connectionMap notes = connectNotes (titleToId notes) notes Map.empty"

subsection \<open>The D3 effect: preparing the data\<close>

definition groupOf :: "jsString \<Rightarrow> nat" where
  "groupOf folder = (if folder = js ''Inbox'' then 1 else if folder = js ''Projects'' then 2 else 3)"

text \<open>The object literal names three properties; the others are absent.\<close>

definition toNode :: "Note \<Rightarrow> GraphNode" where
  "toNode note =
     \<lparr>node_id = note_id note, node_title = note_title note,
      node_group = groupOf (note_folder note),
      node_x = Undefined, node_y = Undefined, node_fx = Undefined, node_fy = Undefined\<rparr>"

definition buildNodes :: "Note list \<Rightarrow> GraphNode list" where
  "buildNodes notes = map toNode notes"

definition titleToIdMap :: "Note list \<Rightarrow> (jsString \<rightharpoonup> jsString)" where
  "titleToIdMap notes =
     mapFromEntries (map (\<lambda>n. (toLowerCase (note_title n), note_id n)) notes)"

text \<open>\<open>linkedTitles.forEach(linkedTitle => ...)\<close>, with \<open>links.push\<close> as appending.\<close>

definition pushLink ::
  "(jsString \<rightharpoonup> jsString) \<Rightarrow> jsString \<Rightarrow> GraphLink list \<Rightarrow> jsString \<Rightarrow> GraphLink list"
where
  "pushLink tti sourceId links linkedTitle =
     (case tti (toLowerCase linkedTitle) of
        None \<Rightarrow> links
      | Some targetId \<Rightarrow>
          if targetId = [] then links
          else links @ [\<lparr>link_source = sourceId, link_target = targetId\<rparr>])"

definition pushNoteLinks :: "(jsString \<rightharpoonup> jsString) \<Rightarrow> GraphLink list \<Rightarrow> Note \<Rightarrow> GraphLink list" where
  "pushNoteLinks tti links note =
     foldl (pushLink tti (note_id note)) links (extractLinks (note_content note))"

definition buildLinks :: "Note list \<Rightarrow> GraphLink list" where
  "buildLinks notes = foldl (pushNoteLinks (titleToIdMap notes)) [] notes"

text \<open>
  The effect returns at once when the SVG element is not mounted or there is no note.
  Otherwise it builds the node and link arrays from \<open>notes\<close> alone: the arrays of the run
  before live in that run's closure, and its cleanup only stops the old simulation.
\<close>

definition graphData :: "bool \<Rightarrow> Note list \<Rightarrow> (GraphNode list \<times> GraphLink list) option" where
  "graphData svgMounted notes =
     (if \<not> svgMounted \<or> length notes = 0 then None
      else Some (buildNodes notes, buildLinks notes))"

subsection \<open>The drag behaviour\<close>

text \<open>
  Of the simulation the handlers set the target alpha and restart the timer; of the event
  they read \<open>active\<close>, \<open>x\<close>, \<open>y\<close> and the subject, which is the node under the pointer.
\<close>

record Simulation =
  alphaTarget :: real
  running :: bool

record DragEvent =
  ev_active :: nat
  ev_x :: real
  ev_y :: real

definition dragStart :: "DragEvent \<Rightarrow> Simulation \<times> GraphNode \<Rightarrow> Simulation \<times> GraphNode" where
  "dragStart event st =
     (case st of (simulation, subject) \<Rightarrow>
        ((if ev_active event = 0 then simulation\<lparr>alphaTarget := 3 / 10, running := True\<rparr>
          else simulation),
         subject\<lparr>node_fx := node_x subject, node_fy := node_y subject\<rparr>))"

definition dragMove :: "DragEvent \<Rightarrow> Simulation \<times> GraphNode \<Rightarrow> Simulation \<times> GraphNode" where
  "dragMove event st =
     (case st of (simulation, subject) \<Rightarrow>
        (simulation,
         subject\<lparr>node_fx := Number (ev_x event), node_fy := Number (ev_y event)\<rparr>))"

definition dragEnd :: "DragEvent \<Rightarrow> Simulation \<times> GraphNode \<Rightarrow> Simulation \<times> GraphNode" where
  "dragEnd event st =
     (case st of (simulation, subject) \<Rightarrow>
        ((if ev_active event = 0 then simulation\<lparr>alphaTarget := 0\<rparr> else simulation),
         subject\<lparr>node_fx := Null, node_fy := Null\<rparr>))"

text \<open>A whole gesture on one node: pointer down, any number of moves, pointer up.\<close>

definition dragGesture ::
  "DragEvent \<Rightarrow> DragEvent list \<Rightarrow> DragEvent \<Rightarrow> Simulation \<times> GraphNode \<Rightarrow> Simulation \<times> GraphNode"
where
  "dragGesture down moves up st =
     dragEnd up (foldl (\<lambda>s e. dragMove e s) (dragStart down st) moves)"

subsection \<open>The highlight effect\<close>

definition baseOpacity :: real where
  "baseOpacity = 1"

definition dimmedOpacity :: real where
  "dimmedOpacity = 1 / 10"

text \<open>\<open>!selectedNodeId\<close> holds for \<open>null\<close> and for the empty string.\<close>

definition noSelection :: "jsString option \<Rightarrow> bool" where
  "noSelection selectedNodeId = (selectedNodeId = None \<or> selectedNodeId = Some [])"

definition isConnected :: "connections \<Rightarrow> jsString \<Rightarrow> jsString \<Rightarrow> bool" where
  "isConnected cm selectedNodeId i =
     (if i = selectedNodeId then True
      else (case cm selectedNodeId of
              None \<Rightarrow> False
            | Some neighbors \<Rightarrow> setHas neighbors i))"

text \<open>
  By the time the effect runs, the link force has replaced the two identities of a link by
  the node objects that carry them, and the effect reads their \<open>id\<close> back.
\<close>

definition isDirectLink :: "connections \<Rightarrow> jsString \<Rightarrow> GraphLink \<Rightarrow> bool" where
  "isDirectLink cm selectedNodeId d =
     (let sourceId = link_source d; targetId = link_target d
      in (sourceId = selectedNodeId \<and> isConnected cm selectedNodeId targetId) \<or>
         (targetId = selectedNodeId \<and> isConnected cm selectedNodeId sourceId))"

definition nodeOpacity :: "jsString option \<Rightarrow> connections \<Rightarrow> GraphNode \<Rightarrow> real" where
  "nodeOpacity selectedNodeId cm d =
     (if noSelection selectedNodeId then baseOpacity
      else if isConnected cm (the selectedNodeId) (node_id d) then 1 else dimmedOpacity)"

definition labelOpacity :: "jsString option \<Rightarrow> connections \<Rightarrow> GraphNode \<Rightarrow> real" where
  "labelOpacity selectedNodeId cm d =
     (if noSelection selectedNodeId then baseOpacity
      else if isConnected cm (the selectedNodeId) (node_id d) then 1 else dimmedOpacity)"

definition linkOpacity :: "jsString option \<Rightarrow> connections \<Rightarrow> GraphLink \<Rightarrow> real" where
  "linkOpacity selectedNodeId cm d =
     (if noSelection selectedNodeId then 6 / 10
      else if isDirectLink cm (the selectedNodeId) d then 1 else dimmedOpacity)"

definition connectedLinks :: "jsString option \<Rightarrow> connections \<Rightarrow> GraphLink list \<Rightarrow> GraphLink list" where
  "connectedLinks selectedNodeId cm links =
     (if noSelection selectedNodeId then []
      else filter (isDirectLink cm (the selectedNodeId)) links)"

section \<open>Notions of the specification\<close>

subsection \<open>Bodies with well-formed references\<close>

text \<open>
  A body with \<open>n\<close> well-formed \<open>[[...]]\<close> occurrences is put together from \<open>n\<close> pairs of the
  text before an occurrence and the text inside it, and the text after the last one:
  \<open>assemble [(g1, c1), (g2, c2)] tail\<close> is \<open>g1 [[c1]] g2 [[c2]] tail\<close>. No opening delimiter
  begins in the text before an occurrence (\<open>linkGap\<close>), the text inside ends at the first
  closing delimiter (\<open>bracketedText\<close>), and every opening delimiter of the text after the last
  occurrence is unterminated (\<open>noLink\<close>). \<open>singleLine\<close> is what the specification does not
  ask for and the pattern does.
\<close>

definition linkGap :: "jsString \<Rightarrow> bool" where
  "linkGap g = (\<not> sublist (js ''[['') (g @ js ''[''))"

definition bracketedText :: "jsString \<Rightarrow> bool" where
  "bracketedText c = (\<not> sublist (js '']]'') (c @ js '']''))"

definition singleLine :: "jsString \<Rightarrow> bool" where
  "singleLine c = (\<forall>x\<in>set c. \<not> isLineTerminator x)"

fun noLink :: "jsString \<Rightarrow> bool" where
  "noLink [] = True"
| "noLink (c # cs) =
     ((prefix (js ''[['') (c # cs) \<longrightarrow> \<not> sublist (js '']]'') (drop 2 (c # cs))) \<and> noLink cs)"

fun assemble :: "(jsString \<times> jsString) list \<Rightarrow> jsString \<Rightarrow> jsString" where
  "assemble [] tail = tail"
| "assemble ((g, c) # ps) tail = g @ js ''[['' @ c @ js '']]'' @ assemble ps tail"

subsection \<open>Tag occurrences\<close>

text \<open>
  One token for every position that holds a \<open>#\<close> with a word character right after it, in
  the order of the positions: the word characters that follow the \<open>#\<close>.
\<close>

definition tagOccurrences :: "jsString \<Rightarrow> jsString list" where
  "tagOccurrences body =
     map (\<lambda>i. takeWhile isWordChar (drop (Suc i) body))
       (filter (\<lambda>i. body ! i = Latin (CHR ''#'') \<and> Suc i < length body \<and> isWordChar (body ! Suc i))
          [0..<length body])"

subsection \<open>Edges, adjacency and resolution\<close>

definition edge :: "jsString \<Rightarrow> jsString \<Rightarrow> GraphLink" where
  "edge s t = \<lparr>link_source = s, link_target = t\<rparr>"

definition neighbors :: "connections \<Rightarrow> jsString \<Rightarrow> stringSet" where
  "neighbors cm a = (case cm a of None \<Rightarrow> [] | Some s \<Rightarrow> s)"

definition adjacency :: "connections \<Rightarrow> jsString \<Rightarrow> jsString set" where
  "adjacency cm a = set (neighbors cm a)"

definition foldedTitle :: "Note \<Rightarrow> jsString" where
  "foldedTitle n = toLowerCase (note_title n)"

text \<open>
  A reference resolves to an identity when the lookup of its case-folded text succeeds and
  the identity passes the guard \<open>if (targetId)\<close>.
\<close>

definition resolvesTo :: "(jsString \<rightharpoonup> jsString) \<Rightarrow> jsString \<Rightarrow> jsString \<Rightarrow> bool" where
  "resolvesTo tti r t = (tti (toLowerCase r) = Some t \<and> t \<noteq> [])"

definition resolved :: "(jsString \<rightharpoonup> jsString) \<Rightarrow> jsString list \<Rightarrow> jsString list" where
  "resolved tti refs =
     concat (map (\<lambda>r. case tti (toLowerCase r) of
                         None \<Rightarrow> []
                       | Some t \<Rightarrow> if t = [] then [] else [t]) refs)"

definition targetsOf :: "(jsString \<rightharpoonup> jsString) \<Rightarrow> Note \<Rightarrow> jsString list" where
  "targetsOf tti n = resolved tti (extractLinks (note_content n))"

definition membersOnce :: "connections \<Rightarrow> bool" where
  "membersOnce m = (\<forall>k s. m k = Some s \<longrightarrow> distinct s)"

subsection \<open>Positions across a rebuild\<close>

text \<open>
  Every node of the graph before the rebuild is found again, by identity, at the same
  position.
\<close>

definition positionsKept :: "GraphNode list \<Rightarrow> GraphNode list \<Rightarrow> bool" where
  "positionsKept before after =
     (\<forall>d\<in>set before. \<exists>d'\<in>set after.
        node_id d' = node_id d \<and> node_x d' = node_x d \<and> node_y d' = node_y d)"

subsection \<open>Notes for the examples\<close>

definition mkNote :: "string \<Rightarrow> string \<Rightarrow> string \<Rightarrow> Note" where
  "mkNote i t c =
     \<lparr>note_id = js i, note_title = js t, note_content = js c, note_folder = js ''Notes'',
      note_createdAt = 0, note_updatedAt = 0, note_tags = []\<rparr>"

section \<open>Evaluation\<close>

lemmas link_eval = extractLinks_def extractLinksFrom.simps linkMatchAt_def isLineTerminator_def

lemmas tag_eval = extractTags_def extractTagsFrom.simps tagMatchAt_def isWordChar_def

lemmas lower_eval = toLowerCase_def lowerChar_def isUpperCase_def

lemmas links_eval = buildLinks_def pushNoteLinks_def pushLink_def titleToIdMap_def
  mapFromEntries_def mkNote_def edge_def

lemmas connection_eval = connectionMap_def connect_def getAdd_def titleToId_def
  mapFromEntries_def mkNote_def setAdd_def

section \<open>Case folding\<close>

text \<open>\<open>lowerChar\<close> is the code unit 32 higher on the upper-case letters and the identity elsewhere.\<close>

lemma lowerChar_upper:
  "isUpperCase c \<Longrightarrow> of_char (lowerChar c) = (of_char c :: nat) + 32"
proof (cases c)
  case (Char b0 b1 b2 b3 b4 b5 b6 b7)
  assume "isUpperCase c"
  with Char show ?thesis
    by (cases b0; cases b1; cases b2; cases b3; cases b4; cases b5; cases b6; cases b7)
       (simp_all add: lowerChar_def isUpperCase_def)
qed

lemma lowerChar_other: "\<not> isUpperCase c \<Longrightarrow> lowerChar c = c"
  by (simp add: lowerChar_def)

section \<open>The link pattern on well-formed bodies\<close>

lemma lazyCapture_none: "\<not> sublist (js '']]'') s \<Longrightarrow> lazyCapture s = None"
  by (induction s) (auto simp: sublist_Cons_right split: option.splits)

lemma lazyCapture_text:
  "bracketedText c \<Longrightarrow> singleLine c \<Longrightarrow> lazyCapture (c @ js '']]'' @ r) = Some (c, r)"
proof (induction c)
  case Nil
  then show ?case by simp
next
  case (Cons x c)
  from Cons.prems have np: "\<not> prefix (js '']]'') (x # c @ js '']'')" and bt: "bracketedText c"
    by (auto simp: bracketedText_def sublist_Cons_right)
  from np have "\<not> prefix (js '']]'') (x # c @ js '']]'' @ r)"
    by (cases c) auto
  moreover from Cons.prems have "\<not> isLineTerminator x" "singleLine c"
    by (auto simp: singleLine_def)
  ultimately show ?case using Cons.IH bt by simp
qed

lemma linkExec_open:
  "linkGap g \<Longrightarrow> lazyCapture s = Some m \<Longrightarrow> linkExec (g @ js ''[['' @ s) = Some m"
proof (induction g)
  case Nil
  then show ?case by (simp add: linkMatchAt_def)
next
  case (Cons x g)
  from Cons.prems have np: "\<not> prefix (js ''[['') (x # g @ js ''['')" and lg: "linkGap g"
    by (auto simp: linkGap_def sublist_Cons_right)
  from np have "\<not> prefix (js ''[['') (x # g @ js ''[['' @ s)"
    by (cases g) auto
  then have "linkMatchAt (x # g @ js ''[['' @ s) = None"
    unfolding linkMatchAt_def by (rule if_not_P)
  then show ?case using Cons.IH[OF lg Cons.prems(2)] by simp
qed

lemma linkExec_noLink: "noLink t \<Longrightarrow> linkExec t = None"
  by (induction t) (auto simp: linkMatchAt_def lazyCapture_none)

lemma extractLinksFrom_assemble:
  "\<forall>(g, c)\<in>set ps. linkGap g \<and> bracketedText c \<and> singleLine c \<Longrightarrow> noLink tail \<Longrightarrow>
   extractLinksFrom (assemble ps tail) = map snd ps"
proof (induction ps)
  case Nil
  then show ?case by (simp add: extractLinksFrom.simps linkExec_noLink)
next
  case (Cons p ps)
  obtain g c where p: "p = (g, c)" by (cases p)
  from Cons.prems p have "linkGap g" "bracketedText c" "singleLine c" by auto
  then have "linkExec (g @ js ''[['' @ c @ js '']]'' @ assemble ps tail) = Some (c, assemble ps tail)"
    by (intro linkExec_open lazyCapture_text)
  then show ?case using Cons p
    by (simp add: extractLinksFrom.simps[of "g @ _"])
qed

text \<open>
  C3, as the code has it: for every body put together from \<open>n\<close> well-formed \<open>[[...]]\<close>
  occurrences whose text holds no line terminator (line feed, carriage return, line
  separator U+2028, paragraph separator U+2029), \<open>extractLinks\<close> returns exactly the \<open>n\<close>
  texts, in left-to-right order, duplicates, casing and white space as they are. The text
  after the last occurrence may hold unterminated opening delimiters, which yield no
  match; a body with no occurrence (\<open>ps = []\<close>) yields the empty sequence.
\<close>

theorem extractLinks_single_line_occurrences:
  assumes "\<forall>(g, c)\<in>set ps. linkGap g \<and> bracketedText c \<and> singleLine c"
    and "noLink tail"
  shows "extractLinks (assemble ps tail) = map snd ps"
  using assms by (simp add: extractLinks_def extractLinksFrom_assemble)

theorem extractLinks_single_line_occurrences_witness:
  "linkGap (js ''Try '') \<and> bracketedText (js ''Philosophy'') \<and> singleLine (js ''Philosophy'') \<and>
   linkGap (js '' or the '') \<and> bracketedText (js ''Project  Alpha'') \<and> singleLine (js ''Project  Alpha'') \<and>
   linkGap [] \<and> noLink (js '' and [[unfinished ]'') \<and>
   extractLinks (js ''Try [[Philosophy]] or the [[Project  Alpha]][[Philosophy]] and [[unfinished ]'')
     = [js ''Philosophy'', js ''Project  Alpha'', js ''Philosophy'']"
proof -
  have g: "linkGap (js ''Try '')" "linkGap (js '' or the '')" "linkGap []"
    by (simp_all add: linkGap_def sublist_Cons_right)
  have c: "bracketedText (js ''Philosophy'')" "singleLine (js ''Philosophy'')"
    "bracketedText (js ''Project  Alpha'')" "singleLine (js ''Project  Alpha'')"
    by (simp_all add: bracketedText_def singleLine_def isLineTerminator_def sublist_Cons_right)
  have h1: "\<forall>(g, c)\<in>set [(js ''Try '', js ''Philosophy''), (js '' or the '', js ''Project  Alpha''),
                  ([], js ''Philosophy'')].
      linkGap g \<and> bracketedText c \<and> singleLine c"
    using g c by simp
  have h2: "noLink (js '' and [[unfinished ]'')"
    by (simp add: sublist_Cons_right)
  from extractLinks_single_line_occurrences[OF h1 h2] show ?thesis
    using g c h2 by simp
qed

text \<open>
  The claim as the specification states it asks nothing of the text inside the brackets. A
  reference whose text runs over a line break is well formed in that sense, and the pattern
  does not match it, whichever of the four line terminators makes the break: here a line
  feed, and a line separator.
\<close>

theorem extractLinks_multi_line_counterexample:
  "linkGap (js ''see '') \<and>
   bracketedText (js ''Project'' @ [Latin (CHR 0x0A)] @ js ''Alpha'') \<and>
   noLink (js ''.'') \<and>
   assemble [(js ''see '', js ''Project'' @ [Latin (CHR 0x0A)] @ js ''Alpha'')] (js ''.'')
     = js ''see [[Project'' @ [Latin (CHR 0x0A)] @ js ''Alpha]].'' \<and>
   extractLinks (assemble [(js ''see '', js ''Project'' @ [Latin (CHR 0x0A)] @ js ''Alpha'')]
       (js ''.'')) = [] \<and>
   extractLinks (assemble [(js ''see '', js ''Project'' @ [Latin (CHR 0x0A)] @ js ''Alpha'')]
       (js ''.''))
     \<noteq> map snd [(js ''see '', js ''Project'' @ [Latin (CHR 0x0A)] @ js ''Alpha'')] \<and>
   linkGap [] \<and> bracketedText (js ''a'' @ [LineSeparator] @ js ''b'') \<and> noLink [] \<and>
   assemble [([], js ''a'' @ [LineSeparator] @ js ''b'')] []
     = js ''[[a'' @ [LineSeparator] @ js ''b]]'' \<and>
   extractLinks (assemble [([], js ''a'' @ [LineSeparator] @ js ''b'')] []) = [] \<and>
   extractLinks (assemble [([], js ''a'' @ [LineSeparator] @ js ''b'')] [])
     \<noteq> map snd [([] :: jsString, js ''a'' @ [LineSeparator] @ js ''b'')]"
proof -
  have g: "linkGap (js ''see '')" "linkGap []"
    by (simp_all add: linkGap_def sublist_Cons_right)
  have b: "bracketedText (js ''Project'' @ [Latin (CHR 0x0A)] @ js ''Alpha'')"
    "bracketedText (js ''a'' @ [LineSeparator] @ js ''b'')"
    by (simp_all add: bracketedText_def sublist_Cons_right)
  have n: "noLink (js ''.'')" "noLink []"
    by (simp_all add: sublist_Cons_right)
  have a1: "assemble [(js ''see '', js ''Project'' @ [Latin (CHR 0x0A)] @ js ''Alpha'')] (js ''.'')
     = js ''see [[Project'' @ [Latin (CHR 0x0A)] @ js ''Alpha]].''"
    by simp
  have a2: "assemble [([], js ''a'' @ [LineSeparator] @ js ''b'')] []
     = js ''[[a'' @ [LineSeparator] @ js ''b]]''"
    by simp
  have e1: "extractLinks (js ''see [[Project'' @ [Latin (CHR 0x0A)] @ js ''Alpha]].'') = []"
    by (simp add: link_eval)
  have e2: "extractLinks (js ''[[a'' @ [LineSeparator] @ js ''b]]'') = []"
    by (simp add: link_eval)
  have d1: "[] \<noteq> map snd [(js ''see '', js ''Project'' @ [Latin (CHR 0x0A)] @ js ''Alpha'')]"
    and d2: "[] \<noteq> map snd [([] :: jsString, js ''a'' @ [LineSeparator] @ js ''b'')]"
    by simp_all
  show ?thesis
    unfolding a1 a2 e1 e2 using g b n d1 d2 by (intro conjI) (assumption | rule refl)+
qed

section \<open>The tag pattern\<close>

lemma tagOccurrences_Nil: "tagOccurrences [] = []"
  by (simp add: tagOccurrences_def)

lemma tagOccurrences_Cons:
  "tagOccurrences (c # cs) =
     (if c = Latin (CHR ''#'') \<and> takeWhile isWordChar cs \<noteq> [] then [takeWhile isWordChar cs] else [])
     @ tagOccurrences cs"
proof -
  have upt: "[0..<length (c # cs)] = 0 # map Suc [0..<length cs]"
    by (simp only: length_Cons upt_conv_Cons[OF zero_less_Suc] map_Suc_upt)
  have hd: "(0 < length cs \<and> isWordChar (cs ! 0)) = (takeWhile isWordChar cs \<noteq> [])"
    by (cases cs) auto
  show ?thesis
    unfolding tagOccurrences_def upt
    using hd by (simp add: filter_map comp_def)
qed

lemma hash_not_word: "\<not> isWordChar (Latin (CHR ''#''))"
  by (simp add: isWordChar_def)

lemma tagOccurrences_skip:
  "\<forall>c\<in>set ws. isWordChar c \<Longrightarrow> tagOccurrences (ws @ rest) = tagOccurrences rest"
  by (induction ws) (auto simp: tagOccurrences_Cons hash_not_word)

lemma tagMatchAt_occurrences:
  assumes "tagMatchAt (c # cs) = Some (cap, rest)"
  shows "tagOccurrences (c # cs) = cap # tagOccurrences rest"
proof -
  from assms have c: "c = Latin (CHR ''#'')" "takeWhile isWordChar cs \<noteq> []"
    and cap: "cap = takeWhile isWordChar cs" and rest: "rest = dropWhile isWordChar cs"
    by (auto simp: tagMatchAt_def split: if_splits)
  have "tagOccurrences cs = tagOccurrences (takeWhile isWordChar cs @ dropWhile isWordChar cs)"
    by simp
  also have "\<dots> = tagOccurrences (dropWhile isWordChar cs)"
    by (rule tagOccurrences_skip) (auto dest: set_takeWhileD)
  finally show ?thesis using c cap rest by (simp add: tagOccurrences_Cons)
qed

lemma tagMatchAt_none:
  "tagMatchAt (c # cs) = None \<Longrightarrow> tagOccurrences (c # cs) = tagOccurrences cs"
  by (auto simp: tagMatchAt_def tagOccurrences_Cons split: if_splits)

lemma tagExec_none: "tagExec s = None \<Longrightarrow> tagOccurrences s = []"
  by (induction s) (auto simp: tagOccurrences_Nil tagMatchAt_none split: option.splits)

lemma tagExec_some:
  "tagExec s = Some (cap, rest) \<Longrightarrow> tagOccurrences s = cap # tagOccurrences rest"
  by (induction s) (auto simp: tagMatchAt_none tagMatchAt_occurrences split: option.splits)

lemma extractTagsFrom_occurrences: "extractTagsFrom s = tagOccurrences s"
proof (induction s rule: extractTagsFrom.induct)
  case (1 s)
  show ?case
  proof (cases "tagExec s")
    case None
    then show ?thesis by (simp add: extractTagsFrom.simps[of s] tagExec_none)
  next
    case (Some m)
    obtain cap rest where m: "m = (cap, rest)" by (cases m)
    with Some 1 show ?thesis
      by (simp add: extractTagsFrom.simps[of s] tagExec_some)
  qed
qed

lemma tagOccurrences_token:
  assumes "t \<in> set (tagOccurrences body)"
  shows "t \<noteq> [] \<and> (\<forall>c\<in>set t. isWordChar c)"
proof -
  from assms obtain i where i: "Suc i < length body" "isWordChar (body ! Suc i)"
    and t: "t = takeWhile isWordChar (drop (Suc i) body)"
    by (auto simp: tagOccurrences_def)
  from i have "drop (Suc i) body = body ! Suc i # drop (Suc (Suc i)) body"
    by (simp add: Cons_nth_drop_Suc)
  with i t have "t \<noteq> []" by simp
  moreover from t have "\<forall>c\<in>set t. isWordChar c"
    by (auto dest: set_takeWhileD)
  ultimately show ?thesis by simp
qed

text \<open>
  C9: for every body, \<open>extractTags\<close> returns, in left-to-right order, one token for every
  \<open>#\<close> that a word character follows at once, the token being the word characters after the
  \<open>#\<close> (so it is not empty and holds no \<open>#\<close>); a \<open>#\<close> with no word character after it is not
  among the positions of \<open>tagOccurrences\<close> and yields nothing.
\<close>

theorem extractTags_occurrences:
  "extractTags body = tagOccurrences body \<and>
   (\<forall>t\<in>set (extractTags body). t \<noteq> [] \<and> (\<forall>c\<in>set t. isWordChar c) \<and> Latin (CHR ''#'') \<notin> set t)"
  using tagOccurrences_token[of _ body] hash_not_word
  by (auto simp: extractTags_def extractTagsFrom_occurrences)

theorem extractTags_occurrences_witness:
  "extractTags (js ''#welcome #start # x#y_1#-##A'') = [js ''welcome'', js ''start'', js ''y_1'', js ''A''] \<and>
   tagOccurrences (js ''#welcome #start # x#y_1#-##A'') = [js ''welcome'', js ''start'', js ''y_1'', js ''A'']"
proof -
  have e: "extractTags (js ''#welcome #start # x#y_1#-##A'') = [js ''welcome'', js ''start'', js ''y_1'', js ''A'']"
    by (simp add: tag_eval)
  note occ = extractTags_occurrences[of "js ''#welcome #start # x#y_1#-##A''", unfolded e]
  from occ have "tagOccurrences (js ''#welcome #start # x#y_1#-##A'')
      = [js ''welcome'', js ''start'', js ''y_1'', js ''A'']"
    by (rule conjunct1[THEN sym])
  then show ?thesis using e by blast
qed

section \<open>The resolution index\<close>

lemma foldl_upd: "foldl (\<lambda>m (k, v). m(k \<mapsto> v)) m0 es = m0 ++ map_of (rev es)"
  by (induction es arbitrary: m0) (auto simp: map_add_upd_left split: prod.splits)

lemma mapFromEntries_map_of: "mapFromEntries es = map_of (rev es)"
  by (simp add: mapFromEntries_def foldl_upd)

lemma titleToIdMap_eq: "titleToIdMap notes = titleToId notes"
  by (simp add: titleToIdMap_def titleToId_def)

lemma titleToId_map_of:
  "titleToId notes = map_of (rev (map (\<lambda>n. (foldedTitle n, note_id n)) notes))"
  by (simp add: titleToId_def mapFromEntries_map_of foldedTitle_def)

lemma titleToId_SomeD:
  "titleToId notes k = Some t \<Longrightarrow> \<exists>n\<in>set notes. foldedTitle n = k \<and> note_id n = t"
  by (auto simp: titleToId_map_of dest!: map_of_SomeD)

lemma titleToId_None:
  "(titleToId notes k = None) = (k \<notin> foldedTitle ` set notes)"
  by (simp add: titleToId_map_of map_of_eq_None_iff image_image)

lemma titleToId_last:
  assumes "notes = pre @ n # post" and "\<forall>m\<in>set post. foldedTitle m \<noteq> foldedTitle n"
  shows "titleToId notes (foldedTitle n) = Some (note_id n)"
proof -
  let ?f = "\<lambda>n. (foldedTitle n, note_id n)"
  have "map_of (rev (map ?f post)) (foldedTitle n) = None"
    using assms(2) by (auto simp: map_of_eq_None_iff)
  then show ?thesis
    using assms(1) by (simp add: titleToId_map_of map_add_def)
qed

lemma titleToId_distinct:
  assumes "distinct (map foldedTitle notes)" and "n \<in> set notes"
  shows "titleToId notes (foldedTitle n) = Some (note_id n)"
proof -
  from assms(2) obtain pre post where sp: "notes = pre @ n # post"
    by (auto simp: in_set_conv_decomp)
  with assms(1) have "\<forall>m\<in>set post. foldedTitle m \<noteq> foldedTitle n"
    by (auto simp: image_iff)
  with sp show ?thesis by (rule titleToId_last)
qed

section \<open>The edge list as a concatenation\<close>

lemma edge_eq [simp]: "(edge s t = edge s' t') = (s = s' \<and> t = t')"
  by (simp add: edge_def)

lemma edge_sel [simp]: "link_source (edge s t) = s" "link_target (edge s t) = t"
  by (simp_all add: edge_def)

lemma resolved_mem:
  "(t \<in> set (resolved tti refs)) = (\<exists>r\<in>set refs. tti (toLowerCase r) = Some t \<and> t \<noteq> [])"
  by (induction refs) (auto simp: resolved_def split: option.splits)

lemma resolved_single:
  "tti (toLowerCase r) = Some t \<Longrightarrow> t \<noteq> [] \<Longrightarrow> resolved tti [r] = [t]"
  by (simp add: resolved_def)

lemma resolved_Nil: "resolved tti [] = []"
  by (simp add: resolved_def)

lemma foldl_pushLink:
  "foldl (pushLink tti s) links refs = links @ map (edge s) (resolved tti refs)"
  by (induction refs arbitrary: links)
     (auto simp: pushLink_def resolved_def edge_def split: option.splits)

lemma pushNoteLinks_targets:
  "pushNoteLinks tti links n = links @ map (edge (note_id n)) (targetsOf tti n)"
  by (simp add: pushNoteLinks_def foldl_pushLink targetsOf_def)

lemma foldl_pushNoteLinks:
  "foldl (pushNoteLinks tti) links ns =
     links @ concat (map (\<lambda>n. map (edge (note_id n)) (targetsOf tti n)) ns)"
  by (induction ns arbitrary: links) (auto simp: pushNoteLinks_targets)

lemma buildLinks_concat:
  "buildLinks notes =
     concat (map (\<lambda>n. map (edge (note_id n)) (targetsOf (titleToId notes) n)) notes)"
  by (simp add: buildLinks_def foldl_pushNoteLinks titleToIdMap_eq)

lemma edge_in_buildLinks:
  "(edge s t \<in> set (buildLinks notes)) =
     (\<exists>n\<in>set notes. note_id n = s \<and> t \<in> set (targetsOf (titleToId notes) n))"
  by (auto simp: buildLinks_concat)

lemma node_ids: "map node_id (buildNodes notes) = map note_id notes"
  by (simp add: buildNodes_def toNode_def)

lemma buildLinks_endpoints:
  assumes "l \<in> set (buildLinks notes)"
  shows "link_source l \<in> note_id ` set notes \<and> link_target l \<in> note_id ` set notes"
proof -
  from assms obtain n t where n: "n \<in> set notes"
    and t: "t \<in> set (targetsOf (titleToId notes) n)"
    and l: "l = edge (note_id n) t"
    by (auto simp: buildLinks_concat)
  from t obtain r where "titleToId notes (toLowerCase r) = Some t"
    by (auto simp: targetsOf_def resolved_mem)
  then obtain m where "m \<in> set notes" "note_id m = t"
    by (auto dest: titleToId_SomeD)
  with n l show ?thesis by auto
qed

section \<open>The adjacency index as the symmetric closure of the edge list\<close>

lemma set_setAdd: "set (setAdd s v) = insert v (set s)"
  by (auto simp: setAdd_def)

lemma distinct_setAdd: "distinct s \<Longrightarrow> distinct (setAdd s v)"
  by (auto simp: setAdd_def)

lemma connect_Inr:
  "\<exists>m'. connect m s t = Inr m' \<and>
     (\<forall>x. adjacency m' x =
        adjacency m x \<union> (if x = s then {t} else {}) \<union> (if x = t then {s} else {})) \<and>
     (membersOnce m \<longrightarrow> membersOnce m')"
  by (auto simp: connect_def getAdd_def Let_def adjacency_def neighbors_def set_setAdd
      membersOnce_def distinct_setAdd split: option.splits if_splits)

lemma connectLinks_Inr:
  "\<exists>m'. connectLinks tti s refs m = Inr m' \<and>
     (\<forall>x. adjacency m' x =
        adjacency m x \<union> (if x = s then set (resolved tti refs) else {})
          \<union> (if x \<in> set (resolved tti refs) then {s} else {})) \<and>
     (membersOnce m \<longrightarrow> membersOnce m')"
proof (induction refs arbitrary: m)
  case Nil
  show ?case by (simp add: resolved_def)
next
  case (Cons r refs)
  show ?case
  proof (cases "tti (toLowerCase r)")
    case None
    then have "resolved tti (r # refs) = resolved tti refs"
      and "connectLinks tti s (r # refs) m = connectLinks tti s refs m"
      by (simp_all add: resolved_def)
    then show ?thesis using Cons.IH[of m] by (simp only:)
  next
    case (Some t)
    show ?thesis
    proof (cases "t = []")
      case True
      with Some have "resolved tti (r # refs) = resolved tti refs"
        and "connectLinks tti s (r # refs) m = connectLinks tti s refs m"
        by (simp_all add: resolved_def)
      then show ?thesis using Cons.IH[of m] by (simp only:)
    next
      case False
      with Some have res: "resolved tti (r # refs) = t # resolved tti refs"
        by (simp add: resolved_def)
      from connect_Inr[of m s t] obtain m1 where
        m1: "connect m s t = Inr m1"
        and a1: "\<And>x. adjacency m1 x =
          adjacency m x \<union> (if x = s then {t} else {}) \<union> (if x = t then {s} else {})"
        and w1: "membersOnce m \<longrightarrow> membersOnce m1"
        by blast
      from Cons.IH[of m1] obtain m2 where
        m2: "connectLinks tti s refs m1 = Inr m2"
        and a2: "\<And>x. adjacency m2 x =
          adjacency m1 x \<union> (if x = s then set (resolved tti refs) else {})
            \<union> (if x \<in> set (resolved tti refs) then {s} else {})"
        and w2: "membersOnce m1 \<longrightarrow> membersOnce m2"
        by blast
      have "connectLinks tti s (r # refs) m = Inr m2"
        using Some False m1 m2 by simp
      moreover have "\<forall>x. adjacency m2 x =
          adjacency m x \<union> (if x = s then set (resolved tti (r # refs)) else {})
            \<union> (if x \<in> set (resolved tti (r # refs)) then {s} else {})"
        unfolding res a2 a1 by auto
      ultimately show ?thesis using w1 w2 by blast
    qed
  qed
qed

lemma connectNotes_Inr:
  "\<exists>m'. connectNotes tti ns m = Inr m' \<and>
     (\<forall>x. adjacency m' x =
        adjacency m x \<union> {t. \<exists>n\<in>set ns. note_id n = x \<and> t \<in> set (targetsOf tti n)}
          \<union> {s. \<exists>n\<in>set ns. note_id n = s \<and> x \<in> set (targetsOf tti n)}) \<and>
     (membersOnce m \<longrightarrow> membersOnce m')"
proof (induction ns arbitrary: m)
  case Nil
  show ?case by simp
next
  case (Cons n ns)
  from connectLinks_Inr[of tti "note_id n" "extractLinks (note_content n)" m] obtain m1 where
    m1: "connectLinks tti (note_id n) (extractLinks (note_content n)) m = Inr m1"
    and a1: "\<And>x. adjacency m1 x =
      adjacency m x \<union> (if x = note_id n then set (targetsOf tti n) else {})
        \<union> (if x \<in> set (targetsOf tti n) then {note_id n} else {})"
    and w1: "membersOnce m \<longrightarrow> membersOnce m1"
    unfolding targetsOf_def by blast
  from Cons.IH[of m1] obtain m2 where
    m2: "connectNotes tti ns m1 = Inr m2"
    and a2: "\<And>x. adjacency m2 x =
      adjacency m1 x \<union> {t. \<exists>n\<in>set ns. note_id n = x \<and> t \<in> set (targetsOf tti n)}
        \<union> {s. \<exists>n\<in>set ns. note_id n = s \<and> x \<in> set (targetsOf tti n)}"
    and w2: "membersOnce m1 \<longrightarrow> membersOnce m2"
    by blast
  have "connectNotes tti (n # ns) m = Inr m2"
    using m1 m2 by simp
  moreover have "\<forall>x. adjacency m2 x =
      adjacency m x \<union> {t. \<exists>n\<in>set (n # ns). note_id n = x \<and> t \<in> set (targetsOf tti n)}
        \<union> {s. \<exists>n\<in>set (n # ns). note_id n = s \<and> x \<in> set (targetsOf tti n)}"
    unfolding a2 a1 by auto
  ultimately show ?case using w1 w2 by blast
qed

lemma connectionMap_adjacency:
  "\<exists>cm. connectionMap notes = Inr cm \<and> membersOnce cm \<and>
     (\<forall>x. adjacency cm x =
        {t. edge x t \<in> set (buildLinks notes)} \<union> {s. edge s x \<in> set (buildLinks notes)})"
proof -
  have e: "adjacency Map.empty x = {}" for x
    by (simp add: adjacency_def neighbors_def)
  have w: "membersOnce Map.empty"
    by (simp add: membersOnce_def)
  from connectNotes_Inr[of "titleToId notes" "notes" "Map.empty"] w e show ?thesis
    unfolding connectionMap_def edge_in_buildLinks by auto
qed

lemma foldedTitle_mkNote: "foldedTitle (mkNote i t c) = toLowerCase (js t)"
  by (simp add: foldedTitle_def mkNote_def)

section \<open>Rebuilding the graph\<close>

text \<open>
  C2, as the code has it: for every rebuild in which the prior notes are unchanged and a new
  note is appended, the effect builds the graph from the notes alone; every node that
  existed before is created again with its identity, title and group, at the same index;
  no node of the rebuilt graph carries a position or a fixed-position override (\<open>x\<close>, \<open>y\<close>,
  \<open>fx\<close>, \<open>fy\<close> are absent when the nodes go to the simulation), so the positions of the
  graph before are not kept.
\<close>

theorem rebuild_keeps_identity_only:
  "graphData True (notes @ [new]) =
     Some (buildNodes (notes @ [new]), buildLinks (notes @ [new])) \<and>
   take (length notes) (buildNodes (notes @ [new])) = buildNodes notes \<and>
   map node_id (buildNodes (notes @ [new])) = map note_id notes @ [note_id new] \<and>
   (\<forall>d\<in>set (buildNodes (notes @ [new])).
      node_x d = Undefined \<and> node_y d = Undefined \<and>
      node_fx d = Undefined \<and> node_fy d = Undefined)"
  by (auto simp: graphData_def buildNodes_def toNode_def)

theorem rebuild_keeps_identity_only_witness:
  "map node_id (buildNodes ([mkNote ''1'' ''Welcome'' ''''] @ [mkNote ''2'' ''Later'' '''']))
     = [js ''1'', js ''2''] \<and>
   node_x (toNode (mkNote ''1'' ''Welcome'' '''')) = Undefined \<and>
   node_y (toNode (mkNote ''1'' ''Welcome'' '''')) = Undefined"
proof -
  note r = rebuild_keeps_identity_only[of "[mkNote ''1'' ''Welcome'' '''']"
      "mkNote ''2'' ''Later'' ''''"]
  from r have "\<forall>d\<in>set (buildNodes ([mkNote ''1'' ''Welcome'' ''''] @ [mkNote ''2'' ''Later'' ''''])).
      node_x d = Undefined \<and> node_y d = Undefined \<and>
      node_fx d = Undefined \<and> node_fy d = Undefined"
    by blast
  then have "node_x (toNode (mkNote ''1'' ''Welcome'' '''')) = Undefined"
    and "node_y (toNode (mkNote ''1'' ''Welcome'' '''')) = Undefined"
    by (simp_all add: buildNodes_def)
  moreover from r have
    "map node_id (buildNodes ([mkNote ''1'' ''Welcome'' ''''] @ [mkNote ''2'' ''Later'' '''']))
       = [js ''1'', js ''2'']"
    by (simp add: mkNote_def)
  ultimately show ?thesis by blast
qed

text \<open>
  The claim as stated fails: the node of note 1 was at (412, 287) when note 2 was appended;
  the node the rebuild makes for note 1 has no position.
\<close>

theorem rebuild_position_counterexample:
  "graphData True [mkNote ''1'' ''Welcome'' '''', mkNote ''2'' ''Later'' ''''] =
     Some (buildNodes [mkNote ''1'' ''Welcome'' '''', mkNote ''2'' ''Later'' ''''],
           buildLinks [mkNote ''1'' ''Welcome'' '''', mkNote ''2'' ''Later'' '''']) \<and>
   node_x (hd (buildNodes [mkNote ''1'' ''Welcome'' '''', mkNote ''2'' ''Later'' ''''])) = Undefined \<and>
   \<not> positionsKept
       [(toNode (mkNote ''1'' ''Welcome'' ''''))\<lparr>node_x := Number 412, node_y := Number 287\<rparr>]
       (buildNodes [mkNote ''1'' ''Welcome'' '''', mkNote ''2'' ''Later'' ''''])"
  by (simp add: graphData_def positionsKept_def buildNodes_def toNode_def mkNote_def)

section \<open>Resolution of shared titles\<close>

text \<open>
  C5: for every note set, the note that comes last among those with a given case-folded
  title (whatever notes with that title come before it) is the one link resolution maps
  the title to. Both indices of the graph view, the one of \<open>connectionMap\<close> and the one of
  the D3 effect, are this function of the note list, so the choice is the same at every
  rebuild with the same note order.
\<close>

theorem later_note_wins:
  assumes "notes = pre @ n # post"
    and "\<forall>m\<in>set post. foldedTitle m \<noteq> foldedTitle n"
  shows "titleToId notes (foldedTitle n) = Some (note_id n) \<and>
         titleToIdMap notes (foldedTitle n) = Some (note_id n)"
  using titleToId_last[OF assms] by (simp add: titleToIdMap_eq)

theorem later_note_wins_witness:
  "[mkNote ''1'' ''Topic'' '''', mkNote ''2'' ''topic'' '''', mkNote ''3'' ''Other'' '''']
     = [mkNote ''1'' ''Topic'' ''''] @ mkNote ''2'' ''topic'' '''' # [mkNote ''3'' ''Other'' ''''] \<and>
   foldedTitle (mkNote ''1'' ''Topic'' '''') = foldedTitle (mkNote ''2'' ''topic'' '''') \<and>
   foldedTitle (mkNote ''3'' ''Other'' '''') \<noteq> foldedTitle (mkNote ''2'' ''topic'' '''') \<and>
   titleToId [mkNote ''1'' ''Topic'' '''', mkNote ''2'' ''topic'' '''', mkNote ''3'' ''Other'' '''']
     (js ''topic'') = Some (js ''2'') \<and>
   titleToIdMap [mkNote ''1'' ''Topic'' '''', mkNote ''2'' ''topic'' '''', mkNote ''3'' ''Other'' '''']
     (js ''topic'') = Some (js ''2'')"
proof -
  have f: "foldedTitle (mkNote ''1'' ''Topic'' '''') = js ''topic''"
    "foldedTitle (mkNote ''2'' ''topic'' '''') = js ''topic''"
    "foldedTitle (mkNote ''3'' ''Other'' '''') = js ''other''"
    by (simp_all add: foldedTitle_mkNote) (simp_all add: lower_eval)
  have h1: "[mkNote ''1'' ''Topic'' '''', mkNote ''2'' ''topic'' '''', mkNote ''3'' ''Other'' '''']
     = [mkNote ''1'' ''Topic'' ''''] @ mkNote ''2'' ''topic'' '''' # [mkNote ''3'' ''Other'' '''']"
    by simp
  have h2: "\<forall>m\<in>set [mkNote ''3'' ''Other'' ''''].
              foldedTitle m \<noteq> foldedTitle (mkNote ''2'' ''topic'' '''')"
    by (simp add: f)
  have i: "note_id (mkNote ''2'' ''topic'' '''') = js ''2''"
    by (simp add: mkNote_def)
  note w = later_note_wins[of
      "[mkNote ''1'' ''Topic'' '''', mkNote ''2'' ''topic'' '''', mkNote ''3'' ''Other'' '''']"
      "[mkNote ''1'' ''Topic'' '''']" "mkNote ''2'' ''topic'' ''''"
      "[mkNote ''3'' ''Other'' '''']", OF h1 h2, unfolded f i]
  have "(js ''other'') \<noteq> js ''topic''"
    by simp
  with w h1 show ?thesis
    unfolding f by blast
qed

section \<open>The adjacency index\<close>

text \<open>
  C6: for every note set, building the adjacency index ends without an error and the index
  is a symmetric relation: for all identities \<open>a\<close> and \<open>b\<close>, \<open>b\<close> is in the adjacency of \<open>a\<close>
  if and only if \<open>a\<close> is in the adjacency of \<open>b\<close>.
\<close>

theorem adjacency_symmetric:
  "\<exists>cm. connectionMap notes = Inr cm \<and>
     (\<forall>a b. (b \<in> adjacency cm a) = (a \<in> adjacency cm b))"
  using connectionMap_adjacency[of "notes"] by auto

theorem adjacency_symmetric_witness:
  "\<not> isl (connectionMap [mkNote ''1'' ''Welcome'' ''[[Philosophy]]'',
                          mkNote ''2'' ''Philosophy'' '''']) \<and>
   (js ''2'' \<in> adjacency (projr (connectionMap [mkNote ''1'' ''Welcome'' ''[[Philosophy]]'',
                          mkNote ''2'' ''Philosophy'' ''''])) (js ''1'')) =
   (js ''1'' \<in> adjacency (projr (connectionMap [mkNote ''1'' ''Welcome'' ''[[Philosophy]]'',
                          mkNote ''2'' ''Philosophy'' ''''])) (js ''2'')) \<and>
   js ''2'' \<in> adjacency (projr (connectionMap [mkNote ''1'' ''Welcome'' ''[[Philosophy]]'',
                          mkNote ''2'' ''Philosophy'' ''''])) (js ''1'')"
proof -
  from adjacency_symmetric[of "[mkNote ''1'' ''Welcome'' ''[[Philosophy]]'',
      mkNote ''2'' ''Philosophy'' '''']"]
  obtain cm where cm: "connectionMap [mkNote ''1'' ''Welcome'' ''[[Philosophy]]'',
      mkNote ''2'' ''Philosophy'' ''''] = Inr cm"
    and sym: "(js ''2'' \<in> adjacency cm (js ''1'')) = (js ''1'' \<in> adjacency cm (js ''2''))"
    by blast
  have "js ''2'' \<in> adjacency (projr (connectionMap [mkNote ''1'' ''Welcome'' ''[[Philosophy]]'',
      mkNote ''2'' ''Philosophy'' ''''])) (js ''1'')"
    by (simp add: connection_eval link_eval lower_eval adjacency_def neighbors_def)
  with cm sym show ?thesis by simp
qed

section \<open>Dangling references\<close>

text \<open>
  C7: for every note of the note set and every reference of its body whose case-folded
  text is the case-folded title of no note, the loop body of the D3 effect pushes no edge
  for that reference and the loop body of \<open>connectionMap\<close> passes it over; the nodes are the
  notes, one for one, so there is no placeholder node; building the adjacency index raises
  no error; and both endpoints of every edge are identities of nodes.
\<close>

theorem dangling_reference_dropped:
  assumes "n \<in> set notes" and "r \<in> set (extractLinks (note_content n))"
    and "\<forall>m\<in>set notes. toLowerCase (note_title m) \<noteq> toLowerCase r"
  shows "pushLink (titleToIdMap notes) (note_id n) links r = links \<and>
         connectLinks (titleToId notes) (note_id n) (r # rs) m =
           connectLinks (titleToId notes) (note_id n) rs m \<and>
         map node_id (buildNodes notes) = map note_id notes \<and>
         (\<exists>cm. connectionMap notes = Inr cm) \<and>
         (\<forall>l\<in>set (buildLinks notes).
            link_source l \<in> set (map node_id (buildNodes notes)) \<and>
            link_target l \<in> set (map node_id (buildNodes notes)))"
proof -
  from assms(3) have "titleToId notes (toLowerCase r) = None"
    by (auto simp: titleToId_None foldedTitle_def)
  then have "pushLink (titleToIdMap notes) (note_id n) links r = links"
    and "connectLinks (titleToId notes) (note_id n) (r # rs) m =
           connectLinks (titleToId notes) (note_id n) rs m"
    by (simp_all add: pushLink_def titleToIdMap_eq)
  moreover have "\<exists>cm. connectionMap notes = Inr cm"
    using connectionMap_adjacency[of "notes"] by blast
  moreover have "\<forall>l\<in>set (buildLinks notes).
            link_source l \<in> set (map node_id (buildNodes notes)) \<and>
            link_target l \<in> set (map node_id (buildNodes notes))"
    using buildLinks_endpoints[of _ "notes"] by (simp add: node_ids)
  ultimately show ?thesis by (simp add: node_ids)
qed

theorem dangling_reference_dropped_witness:
  "mkNote ''1'' ''Welcome'' ''[[Nope]] and [[philosophy]]''
     \<in> set [mkNote ''1'' ''Welcome'' ''[[Nope]] and [[philosophy]]'',
            mkNote ''2'' ''Philosophy'' ''''] \<and>
   js ''Nope'' \<in> set (extractLinks (note_content (mkNote ''1'' ''Welcome'' ''[[Nope]] and [[philosophy]]''))) \<and>
   toLowerCase (js ''Welcome'') \<noteq> toLowerCase (js ''Nope'') \<and>
   toLowerCase (js ''Philosophy'') \<noteq> toLowerCase (js ''Nope'') \<and>
   pushLink (titleToIdMap [mkNote ''1'' ''Welcome'' ''[[Nope]] and [[philosophy]]'',
                          mkNote ''2'' ''Philosophy'' ''''])
      (js ''1'') [] (js ''Nope'') = [] \<and>
   buildLinks [mkNote ''1'' ''Welcome'' ''[[Nope]] and [[philosophy]]'',
               mkNote ''2'' ''Philosophy'' ''''] = [edge (js ''1'') (js ''2'')]"
proof -
  let ?n = "mkNote ''1'' ''Welcome'' ''[[Nope]] and [[philosophy]]''"
  let ?ns = "[?n, mkNote ''2'' ''Philosophy'' '''']"
  have h1: "?n \<in> set ?ns"
    by simp
  have h2: "js ''Nope'' \<in> set (extractLinks (note_content ?n))"
    by (simp add: mkNote_def link_eval)
  have l: "toLowerCase (js ''Welcome'') \<noteq> toLowerCase (js ''Nope'')"
    "toLowerCase (js ''Philosophy'') \<noteq> toLowerCase (js ''Nope'')"
    by (simp_all add: lower_eval)
  then have h3: "\<forall>m\<in>set ?ns. toLowerCase (note_title m) \<noteq> toLowerCase (js ''Nope'')"
    by (simp add: mkNote_def)
  have e: "buildLinks ?ns = [edge (js ''1'') (js ''2'')]"
    by (simp add: links_eval link_eval lower_eval)
  have i: "note_id ?n = js ''1''"
    by (simp add: mkNote_def)
  from dangling_reference_dropped[OF h1 h2 h3, of "[]"] have
    "pushLink (titleToIdMap ?ns) (note_id ?n) [] (js ''Nope'') = []"
    by (rule conjunct1)
  then have "pushLink (titleToIdMap ?ns) (js ''1'') [] (js ''Nope'') = []"
    unfolding i .
  with h1 h2 l e show ?thesis by blast
qed

section \<open>Dragging\<close>

text \<open>
  C8: for every node, simulation state and pointer-up event, the handler of the end of a
  drag leaves the node with \<open>fx\<close> and \<open>fy\<close> set to \<open>null\<close> and its position as it was; so does
  every whole gesture of pointer down, any moves and pointer up, whatever the positions
  dragged to.
\<close>

theorem drag_end_clears_override:
  "node_fx (snd (dragEnd up st)) = Null \<and> node_fy (snd (dragEnd up st)) = Null \<and>
   node_x (snd (dragEnd up st)) = node_x (snd st) \<and>
   node_y (snd (dragEnd up st)) = node_y (snd st) \<and>
   node_fx (snd (dragGesture down moves up st)) = Null \<and>
   node_fy (snd (dragGesture down moves up st)) = Null"
  by (simp add: dragEnd_def dragGesture_def split: prod.splits)

theorem drag_end_clears_override_witness:
  "node_fx (snd (dragMove \<lparr>ev_active = 1, ev_x = 30, ev_y = 40\<rparr>
      (dragStart \<lparr>ev_active = 0, ev_x = 10, ev_y = 20\<rparr>
        (\<lparr>alphaTarget = 0, running = False\<rparr>,
         (toNode (mkNote ''1'' ''Welcome'' ''''))\<lparr>node_x := Number 10, node_y := Number 20\<rparr>))))
     = Number 30 \<and>
   node_fx (snd (dragGesture \<lparr>ev_active = 0, ev_x = 10, ev_y = 20\<rparr>
       [\<lparr>ev_active = 1, ev_x = 30, ev_y = 40\<rparr>] \<lparr>ev_active = 0, ev_x = 30, ev_y = 40\<rparr>
       (\<lparr>alphaTarget = 0, running = False\<rparr>,
        (toNode (mkNote ''1'' ''Welcome'' ''''))\<lparr>node_x := Number 10, node_y := Number 20\<rparr>)))
     = Null \<and>
   node_fy (snd (dragGesture \<lparr>ev_active = 0, ev_x = 10, ev_y = 20\<rparr>
       [\<lparr>ev_active = 1, ev_x = 30, ev_y = 40\<rparr>] \<lparr>ev_active = 0, ev_x = 30, ev_y = 40\<rparr>
       (\<lparr>alphaTarget = 0, running = False\<rparr>,
        (toNode (mkNote ''1'' ''Welcome'' ''''))\<lparr>node_x := Number 10, node_y := Number 20\<rparr>)))
     = Null"
proof -
  have "node_fx (snd (dragMove \<lparr>ev_active = 1, ev_x = 30, ev_y = 40\<rparr>
      (dragStart \<lparr>ev_active = 0, ev_x = 10, ev_y = 20\<rparr>
        (\<lparr>alphaTarget = 0, running = False\<rparr>,
         (toNode (mkNote ''1'' ''Welcome'' ''''))\<lparr>node_x := Number 10, node_y := Number 20\<rparr>))))
     = Number 30"
    by (simp add: dragMove_def dragStart_def)
  then show ?thesis using drag_end_clears_override by blast
qed

section \<open>One reference between two notes\<close>

text \<open>
  C4, as the code has it: for two notes \<open>A\<close> and \<open>B\<close>, in either order, where the body of \<open>A\<close>
  holds one reference whose text matches the title of \<open>B\<close> case-insensitively, the body of
  \<open>B\<close> holds none, the identity of \<open>B\<close> is not the empty string and, when \<open>A\<close> comes after
  \<open>B\<close>, the case-folded titles of the two differ: the edge list is the one edge from \<open>A\<close> to
  \<open>B\<close>, and the adjacency index maps \<open>A\<close> to \<open>{B}\<close> and \<open>B\<close> to \<open>{A}\<close>.
\<close>

theorem single_reference_edge:
  assumes order: "notes = [A, B] \<or>
                  (notes = [B, A] \<and> toLowerCase (note_title A) \<noteq> toLowerCase (note_title B))"
    and refA: "extractLinks (note_content A) = [r]"
    and match: "toLowerCase r = toLowerCase (note_title B)"
    and refB: "extractLinks (note_content B) = []"
    and idB: "note_id B \<noteq> []"
  shows "graphData True notes = Some (buildNodes notes, [edge (note_id A) (note_id B)]) \<and>
         (\<exists>cm. connectionMap notes = Inr cm \<and>
            adjacency cm (note_id A) = {note_id B} \<and>
            adjacency cm (note_id B) = {note_id A})"
proof -
  have look: "titleToId notes (toLowerCase r) = Some (note_id B)"
  proof -
    from order have "\<exists>pre post. notes = pre @ B # post \<and>
                       (\<forall>m\<in>set post. foldedTitle m \<noteq> foldedTitle B)"
    proof
      assume "notes = [A, B]"
      then have "notes = [A] @ B # [] \<and> (\<forall>m\<in>set []. foldedTitle m \<noteq> foldedTitle B)"
        by simp
      then show ?thesis by blast
    next
      assume "notes = [B, A] \<and> toLowerCase (note_title A) \<noteq> toLowerCase (note_title B)"
      then have "notes = [] @ B # [A] \<and> (\<forall>m\<in>set [A]. foldedTitle m \<noteq> foldedTitle B)"
        by (simp add: foldedTitle_def)
      then show ?thesis by blast
    qed
    then obtain pre post where "notes = pre @ B # post"
      and "\<forall>m\<in>set post. foldedTitle m \<noteq> foldedTitle B"
      by blast
    then have "titleToId notes (foldedTitle B) = Some (note_id B)"
      by (rule titleToId_last)
    then show ?thesis by (simp add: foldedTitle_def match)
  qed
  define f where
    "f = (\<lambda>n::Note. map (edge (note_id n)) (targetsOf (titleToId notes) n))"
  have f: "f A = [edge (note_id A) (note_id B)]" "f B = []"
    using look idB by (simp_all add: f_def targetsOf_def refA refB resolved_single resolved_Nil)
  have "buildLinks notes = concat (map f notes)"
    by (simp add: buildLinks_concat f_def)
  also have "\<dots> = [edge (note_id A) (note_id B)]"
    using order f by auto
  finally have links: "buildLinks notes = [edge (note_id A) (note_id B)]" .
  from order have "notes \<noteq> []" by auto
  then have g: "graphData True notes = Some (buildNodes notes, [edge (note_id A) (note_id B)])"
    by (simp add: graphData_def links)
  from connectionMap_adjacency[of "notes"] obtain cm where
    cm: "connectionMap notes = Inr cm"
    and adj: "\<And>x. adjacency cm x =
        {t. edge x t \<in> set (buildLinks notes)} \<union> {s. edge s x \<in> set (buildLinks notes)}"
    by blast
  have "adjacency cm (note_id A) = {note_id B}" "adjacency cm (note_id B) = {note_id A}"
    unfolding adj links by auto
  with cm g show ?thesis by blast
qed

theorem single_reference_edge_witness:
  "toLowerCase (note_title (mkNote ''a'' ''Alpha'' ''see [[beta]]''))
     \<noteq> toLowerCase (note_title (mkNote ''b'' ''Beta'' '''')) \<and>
   extractLinks (note_content (mkNote ''a'' ''Alpha'' ''see [[beta]]'')) = [js ''beta''] \<and>
   toLowerCase (js ''beta'') = toLowerCase (note_title (mkNote ''b'' ''Beta'' '''')) \<and>
   extractLinks (note_content (mkNote ''b'' ''Beta'' '''')) = [] \<and>
   note_id (mkNote ''b'' ''Beta'' '''') \<noteq> [] \<and>
   graphData True [mkNote ''b'' ''Beta'' '''', mkNote ''a'' ''Alpha'' ''see [[beta]]''] =
     Some (buildNodes [mkNote ''b'' ''Beta'' '''', mkNote ''a'' ''Alpha'' ''see [[beta]]''],
           [edge (js ''a'') (js ''b'')]) \<and>
   adjacency (projr (connectionMap
       [mkNote ''b'' ''Beta'' '''', mkNote ''a'' ''Alpha'' ''see [[beta]]''])) (js ''a'') = {js ''b''} \<and>
   adjacency (projr (connectionMap
       [mkNote ''b'' ''Beta'' '''', mkNote ''a'' ''Alpha'' ''see [[beta]]''])) (js ''b'') = {js ''a''}"
proof -
  let ?A = "mkNote ''a'' ''Alpha'' ''see [[beta]]''"
  let ?B = "mkNote ''b'' ''Beta'' ''''"
  have t: "toLowerCase (note_title ?A) \<noteq> toLowerCase (note_title ?B)"
    by (simp add: mkNote_def) (simp add: lower_eval)
  then have h1: "[?B, ?A] = [?A, ?B] \<or>
      ([?B, ?A] = [?B, ?A] \<and> toLowerCase (note_title ?A) \<noteq> toLowerCase (note_title ?B))"
    by simp
  have h2: "extractLinks (note_content ?A) = [js ''beta'']"
    by (simp add: mkNote_def link_eval)
  have h3: "toLowerCase (js ''beta'') = toLowerCase (note_title ?B)"
    by (simp add: mkNote_def) (simp add: lower_eval)
  have h4: "extractLinks (note_content ?B) = []"
    by (simp add: mkNote_def link_eval)
  have h5: "note_id ?B \<noteq> []"
    by (simp add: mkNote_def)
  have i: "note_id ?A = js ''a''" "note_id ?B = js ''b''"
    by (simp_all add: mkNote_def)
  from single_reference_edge[of "[?B, ?A]" ?A ?B "js ''beta''", OF h1 h2 h3 h4 h5]
  obtain cm where "graphData True [?B, ?A] = Some (buildNodes [?B, ?A], [edge (js ''a'') (js ''b'')])"
    and "connectionMap [?B, ?A] = Inr cm"
    and "adjacency cm (js ''a'') = {js ''b''}" and "adjacency cm (js ''b'') = {js ''a''}"
    unfolding i by blast
  with t h2 h3 h4 h5 show ?thesis by simp
qed

text \<open>
  The claim as stated fails when the two notes share the case-folded title and \<open>A\<close> comes
  later: the later note wins, and the one edge is a loop at \<open>A\<close>. It also fails when the
  identity of \<open>B\<close> is the empty string, which the guard \<open>if (targetId)\<close> takes for a miss:
  there is no edge.
\<close>

theorem single_reference_edge_counterexample:
  "extractLinks (note_content (mkNote ''a'' ''topic'' ''see [[Topic]]'')) = [js ''Topic''] \<and>
   toLowerCase (js ''Topic'') = toLowerCase (note_title (mkNote ''b'' ''Topic'' '''')) \<and>
   extractLinks (note_content (mkNote ''b'' ''Topic'' '''')) = [] \<and>
   buildLinks [mkNote ''b'' ''Topic'' '''', mkNote ''a'' ''topic'' ''see [[Topic]]'']
     = [edge (js ''a'') (js ''a'')] \<and>
   buildLinks [mkNote ''b'' ''Topic'' '''', mkNote ''a'' ''topic'' ''see [[Topic]]'']
     \<noteq> [edge (js ''a'') (js ''b'')] \<and>
   adjacency (projr (connectionMap
     [mkNote ''b'' ''Topic'' '''', mkNote ''a'' ''topic'' ''see [[Topic]]''])) (js ''b'') = {} \<and>
   adjacency (projr (connectionMap
     [mkNote ''b'' ''Topic'' '''', mkNote ''a'' ''topic'' ''see [[Topic]]''])) (js ''a'') = {js ''a''} \<and>
   extractLinks (note_content (mkNote ''a'' ''Alpha'' ''see [[beta]]'')) = [js ''beta''] \<and>
   toLowerCase (js ''beta'') = toLowerCase (note_title (mkNote [] ''Beta'' '''')) \<and>
   buildLinks [mkNote ''a'' ''Alpha'' ''see [[beta]]'', mkNote [] ''Beta'' ''''] = []"
proof -
  have "extractLinks (note_content (mkNote ''a'' ''Alpha'' ''see [[beta]]'')) = [js ''beta'']"
    by (simp add: mkNote_def link_eval)
  moreover have "toLowerCase (js ''beta'') = toLowerCase (note_title (mkNote [] ''Beta'' ''''))"
    by (simp add: mkNote_def) (simp add: lower_eval)
  moreover have "buildLinks [mkNote ''a'' ''Alpha'' ''see [[beta]]'', mkNote [] ''Beta'' ''''] = []"
    by (simp add: links_eval link_eval lower_eval)
  moreover
  have "extractLinks (note_content (mkNote ''a'' ''topic'' ''see [[Topic]]'')) = [js ''Topic'']"
    and "extractLinks (note_content (mkNote ''b'' ''Topic'' '''')) = []"
    by (simp_all add: mkNote_def link_eval)
  moreover have "toLowerCase (js ''Topic'') = toLowerCase (note_title (mkNote ''b'' ''Topic'' ''''))"
    by (simp add: mkNote_def)
  moreover have l: "buildLinks [mkNote ''b'' ''Topic'' '''', mkNote ''a'' ''topic'' ''see [[Topic]]'']
     = [edge (js ''a'') (js ''a'')]"
    by (simp add: links_eval link_eval lower_eval)
  moreover have "adjacency (projr (connectionMap
     [mkNote ''b'' ''Topic'' '''', mkNote ''a'' ''topic'' ''see [[Topic]]''])) (js ''b'') = {}"
    and "adjacency (projr (connectionMap
     [mkNote ''b'' ''Topic'' '''', mkNote ''a'' ''topic'' ''see [[Topic]]''])) (js ''a'') = {js ''a''}"
    by (simp_all add: connection_eval link_eval lower_eval adjacency_def neighbors_def)
  ultimately show ?thesis by simp
qed

section \<open>Repeated references\<close>

lemma count_list_concat:
  "count_list (concat xss) x = sum_list (map (\<lambda>xs. count_list xs x) xss)"
  by (induction xss) simp_all

lemma count_list_edges: "count_list (map (edge s) ts) (edge s' t) = (if s = s' then count_list ts t else 0)"
  by (induction ts) auto

lemma count_list_resolved:
  "count_list (resolved tti refs) t = length (filter (\<lambda>r. resolvesTo tti r t) refs)"
  by (induction refs) (auto simp: resolved_def resolvesTo_def split: option.splits)

lemma count_list_distinct: "distinct xs \<Longrightarrow> x \<in> set xs \<Longrightarrow> count_list xs x = 1"
  by (induction xs) (auto simp: count_list_0_iff)

lemma neighbors_distinct: "membersOnce cm \<Longrightarrow> distinct (neighbors cm x)"
  by (auto simp: membersOnce_def neighbors_def split: option.splits)

text \<open>
  C10: for every note of the note set and every target note, let \<open>k\<close> be the number of
  references in the body of the note that resolve to the target. The edges the note
  contributes hold the edge from the note to the target \<open>k\<close> times, so the edge list holds
  it at least \<open>k\<close> times, and exactly \<open>k\<close> times when no two notes share an identity; and
  when there is such a reference, the adjacency index holds the target once among the
  neighbours of the note and the note once among the neighbours of the target.
\<close>

theorem repeated_references_parallel_edges:
  assumes "n \<in> set notes" and "T \<in> set notes"
    and "k = length (filter (\<lambda>r. resolvesTo (titleToIdMap notes) r (note_id T))
                       (extractLinks (note_content n)))"
  shows "count_list (pushNoteLinks (titleToIdMap notes) [] n) (edge (note_id n) (note_id T)) = k \<and>
         k \<le> count_list (buildLinks notes) (edge (note_id n) (note_id T)) \<and>
         (distinct (map note_id notes) \<longrightarrow>
            count_list (buildLinks notes) (edge (note_id n) (note_id T)) = k) \<and>
         (\<exists>cm. connectionMap notes = Inr cm \<and>
            (0 < k \<longrightarrow>
               count_list (neighbors cm (note_id n)) (note_id T) = 1 \<and>
               count_list (neighbors cm (note_id T)) (note_id n) = 1))"
proof -
  let ?e = "edge (note_id n) (note_id T)"
  let ?c = "\<lambda>m. count_list (map (edge (note_id m)) (targetsOf (titleToId notes) m)) ?e"
  have kn: "?c n = k"
    by (simp add: count_list_edges targetsOf_def count_list_resolved assms(3) titleToIdMap_eq)
  then have own: "count_list (pushNoteLinks (titleToIdMap notes) [] n) ?e = k"
    by (simp add: pushNoteLinks_targets titleToIdMap_eq)
  have total: "count_list (buildLinks notes) ?e = sum_list (map ?c notes)"
    by (simp add: buildLinks_concat count_list_concat comp_def)
  have "?c n \<in> set (map ?c notes)"
    using assms(1) by (rule imageI[of n "set notes" ?c, unfolded set_map[symmetric]])
  then have "?c n \<le> sum_list (map ?c notes)"
    by (intro member_le_sum_list) simp_all
  with kn total have atleast: "k \<le> count_list (buildLinks notes) ?e"
    by simp
  have exact: "count_list (buildLinks notes) ?e = k" if d: "distinct (map note_id notes)"
  proof -
    from assms(1) obtain pre post where sp: "notes = pre @ n # post"
      by (auto simp: in_set_conv_decomp)
    with d have other: "\<forall>m\<in>set pre \<union> set post. note_id m \<noteq> note_id n"
      by (auto simp: image_iff)
    then have "\<forall>m\<in>set pre \<union> set post. ?c m = 0"
      by (simp add: count_list_edges)
    then have "sum_list (map ?c pre) = 0" "sum_list (map ?c post) = 0"
      by simp_all
    then have "sum_list (map ?c (pre @ n # post)) = ?c n"
      by simp
    with total kn sp show ?thesis by simp
  qed
  from connectionMap_adjacency[of "notes"] obtain cm where
    cm: "connectionMap notes = Inr cm" and once: "membersOnce cm"
    and adj: "\<And>x. adjacency cm x =
        {t. edge x t \<in> set (buildLinks notes)} \<union> {s. edge s x \<in> set (buildLinks notes)}"
    by blast
  have "count_list (neighbors cm (note_id n)) (note_id T) = 1 \<and>
        count_list (neighbors cm (note_id T)) (note_id n) = 1" if "0 < k"
  proof -
    from that atleast have "?e \<in> set (buildLinks notes)"
      by (metis count_list_0_iff not_less)
    then have "note_id T \<in> adjacency cm (note_id n)" "note_id n \<in> adjacency cm (note_id T)"
      unfolding adj by simp_all
    then show ?thesis
      using neighbors_distinct[OF once]
      by (simp add: adjacency_def count_list_distinct)
  qed
  with cm own atleast exact show ?thesis
    by (intro conjI exI[of _ cm] impI) simp_all
qed

theorem repeated_references_parallel_edges_witness:
  "mkNote ''1'' ''Welcome'' ''[[Philosophy]], [[PHILOSOPHY]] and [[philosophy]]''
     \<in> set [mkNote ''1'' ''Welcome'' ''[[Philosophy]], [[PHILOSOPHY]] and [[philosophy]]'',
            mkNote ''2'' ''Philosophy'' ''''] \<and>
   mkNote ''2'' ''Philosophy'' ''''
     \<in> set [mkNote ''1'' ''Welcome'' ''[[Philosophy]], [[PHILOSOPHY]] and [[philosophy]]'',
            mkNote ''2'' ''Philosophy'' ''''] \<and>
   (3::nat) = length (filter
       (\<lambda>r. resolvesTo (titleToIdMap
                [mkNote ''1'' ''Welcome'' ''[[Philosophy]], [[PHILOSOPHY]] and [[philosophy]]'',
                 mkNote ''2'' ''Philosophy'' '''']) r (note_id (mkNote ''2'' ''Philosophy'' '''')))
       (extractLinks (note_content
          (mkNote ''1'' ''Welcome'' ''[[Philosophy]], [[PHILOSOPHY]] and [[philosophy]]'')))) \<and>
   buildLinks [mkNote ''1'' ''Welcome'' ''[[Philosophy]], [[PHILOSOPHY]] and [[philosophy]]'',
               mkNote ''2'' ''Philosophy'' '''']
     = [edge (js ''1'') (js ''2''), edge (js ''1'') (js ''2''), edge (js ''1'') (js ''2'')] \<and>
   count_list (buildLinks
       [mkNote ''1'' ''Welcome'' ''[[Philosophy]], [[PHILOSOPHY]] and [[philosophy]]'',
        mkNote ''2'' ''Philosophy'' '''']) (edge (js ''1'') (js ''2'')) = 3 \<and>
   count_list (neighbors (projr (connectionMap
       [mkNote ''1'' ''Welcome'' ''[[Philosophy]], [[PHILOSOPHY]] and [[philosophy]]'',
        mkNote ''2'' ''Philosophy'' ''''])) (js ''1'')) (js ''2'') = 1 \<and>
   count_list (neighbors (projr (connectionMap
       [mkNote ''1'' ''Welcome'' ''[[Philosophy]], [[PHILOSOPHY]] and [[philosophy]]'',
        mkNote ''2'' ''Philosophy'' ''''])) (js ''2'')) (js ''1'') = 1"
proof -
  let ?n = "mkNote ''1'' ''Welcome'' ''[[Philosophy]], [[PHILOSOPHY]] and [[philosophy]]''"
  let ?T = "mkNote ''2'' ''Philosophy'' ''''"
  have h1: "?n \<in> set [?n, ?T]" and h2: "?T \<in> set [?n, ?T]"
    by simp_all
  have refs: "extractLinks (note_content ?n) = [js ''Philosophy'', js ''PHILOSOPHY'', js ''philosophy'']"
    by (simp add: mkNote_def link_eval)
  have i: "note_id ?n = js ''1''" "note_id ?T = js ''2''"
    by (simp_all add: mkNote_def)
  have tti: "titleToIdMap [?n, ?T] = [js ''welcome'' \<mapsto> js ''1'', js ''philosophy'' \<mapsto> js ''2'']"
    by (simp add: titleToIdMap_def mapFromEntries_def mkNote_def) (simp add: lower_eval)
  have low: "toLowerCase (js ''Philosophy'') = js ''philosophy''" "toLowerCase (js ''PHILOSOPHY'') = js ''philosophy''"
    "toLowerCase (js ''philosophy'') = js ''philosophy''"
    by (simp_all add: lower_eval)
  have h3: "(3::nat) = length (filter (\<lambda>r. resolvesTo (titleToIdMap [?n, ?T]) r (note_id ?T))
                       (extractLinks (note_content ?n)))"
    unfolding refs i tti using low by (simp add: resolvesTo_def)
  have d: "distinct (map note_id [?n, ?T])"
    by (simp add: i)
  have l: "buildLinks [?n, ?T] = [edge (js ''1'') (js ''2''), edge (js ''1'') (js ''2''), edge (js ''1'') (js ''2'')]"
    by (simp add: links_eval link_eval lower_eval)
  from repeated_references_parallel_edges[OF h1 h2 h3] d obtain cm where
    "count_list (buildLinks [?n, ?T]) (edge (js ''1'') (js ''2'')) = 3"
    and "connectionMap [?n, ?T] = Inr cm"
    and "count_list (neighbors cm (js ''1'')) (js ''2'') = 1"
    and "count_list (neighbors cm (js ''2'')) (js ''1'') = 1"
    unfolding i by auto
  with h1 h2 h3 l show ?thesis by simp
qed

section \<open>A cycle of three notes\<close>

lemma isConnected_adjacency:
  "isConnected cm s i = (i = s \<or> i \<in> adjacency cm s)"
  by (simp add: isConnected_def adjacency_def neighbors_def setHas_def split: option.splits)

lemma three_distinct:
  assumes "set ns = {A, B, C}" and "length ns = 3" and "A \<noteq> B" and "B \<noteq> C" and "A \<noteq> C"
  shows "distinct ns"
proof -
  from assms have "card (set ns) = length ns"
    by simp
  then show ?thesis by (rule card_distinct)
qed

text \<open>
  C1, as the code has it: for a note set of three notes \<open>A\<close>, \<open>B\<close>, \<open>C\<close>, in any order, with
  three different non-empty identities and three different case-folded titles, where the
  body of \<open>A\<close> holds one reference, to the title of \<open>B\<close>, the body of \<open>B\<close> one to the title
  of \<open>C\<close> and the body of \<open>C\<close> one to the title of \<open>A\<close>: the graph builder produces exactly
  the three edges of the cycle, and the adjacency of each node is the other two nodes. When
  one of the three is selected, all three nodes are shown at full opacity, and an edge is
  shown at full opacity when the selected node is one of its endpoints and dimmed
  otherwise: the two edges at the selected node are undimmed, the edge between its two
  neighbours is dimmed.
\<close>

theorem three_cycle_highlight:
  assumes ns: "set notes = {A, B, C}" "length notes = 3"
    and ids: "distinct [note_id A, note_id B, note_id C]"
      "note_id A \<noteq> []" "note_id B \<noteq> []" "note_id C \<noteq> []"
    and titles: "distinct [foldedTitle A, foldedTitle B, foldedTitle C]"
    and refs: "extractLinks (note_content A) = [rB]" "toLowerCase rB = foldedTitle B"
      "extractLinks (note_content B) = [rC]" "toLowerCase rC = foldedTitle C"
      "extractLinks (note_content C) = [rA]" "toLowerCase rA = foldedTitle A"
  shows "length (buildLinks notes) = 3 \<and>
         set (buildLinks notes) =
           {edge (note_id A) (note_id B), edge (note_id B) (note_id C),
            edge (note_id C) (note_id A)} \<and>
         (\<exists>cm. connectionMap notes = Inr cm \<and>
            adjacency cm (note_id A) = {note_id B, note_id C} \<and>
            adjacency cm (note_id B) = {note_id A, note_id C} \<and>
            adjacency cm (note_id C) = {note_id A, note_id B} \<and>
            (\<forall>s\<in>{note_id A, note_id B, note_id C}.
               (\<forall>d\<in>set (buildNodes notes). nodeOpacity (Some s) cm d = 1) \<and>
               (\<forall>l\<in>set (buildLinks notes).
                  linkOpacity (Some s) cm l =
                    (if link_source l = s \<or> link_target l = s then 1 else dimmedOpacity))))"
proof -
  from ids have neq: "A \<noteq> B" "B \<noteq> C" "A \<noteq> C"
    by auto
  with ns have dn: "distinct notes"
    by (intro three_distinct[of "notes" A B C]) simp_all
  from titles ns have "inj_on foldedTitle (set notes)"
    by (auto simp: inj_on_def)
  with dn have dt: "distinct (map foldedTitle notes)"
    by (simp add: distinct_map)
  have mem: "A \<in> set notes" "B \<in> set notes" "C \<in> set notes"
    using ns by simp_all
  have look: "titleToId notes (foldedTitle A) = Some (note_id A)"
    "titleToId notes (foldedTitle B) = Some (note_id B)"
    "titleToId notes (foldedTitle C) = Some (note_id C)"
    using titleToId_distinct[OF dt] mem by simp_all
  have tg: "targetsOf (titleToId notes) A = [note_id B]"
    "targetsOf (titleToId notes) B = [note_id C]"
    "targetsOf (titleToId notes) C = [note_id A]"
    using look ids refs by (simp_all add: targetsOf_def resolved_single)
  define f where
    "f = (\<lambda>n::Note. map (edge (note_id n)) (targetsOf (titleToId notes) n))"
  have f: "f A = [edge (note_id A) (note_id B)]" "f B = [edge (note_id B) (note_id C)]"
    "f C = [edge (note_id C) (note_id A)]"
    by (simp_all add: f_def tg)
  have bl: "buildLinks notes = concat (map f notes)"
    by (simp add: buildLinks_concat f_def)
  have "\<forall>n\<in>set notes. length (f n) = 1"
    using ns f by auto
  then have "sum_list (map (\<lambda>n. length (f n)) notes) = length notes"
    by (induction "notes") simp_all
  then have len: "length (buildLinks notes) = 3"
    by (simp add: bl length_concat comp_def ns)
  have "set (buildLinks notes) = (\<Union>n\<in>set notes. set (f n))"
    by (simp add: bl)
  also have "\<dots> = {edge (note_id A) (note_id B), edge (note_id B) (note_id C),
                     edge (note_id C) (note_id A)}"
    unfolding ns using f by auto
  finally have edges: "set (buildLinks notes) =
      {edge (note_id A) (note_id B), edge (note_id B) (note_id C),
       edge (note_id C) (note_id A)}" .
  from connectionMap_adjacency[of "notes"] obtain cm where
    cm: "connectionMap notes = Inr cm"
    and adj: "\<And>x. adjacency cm x =
        {t. edge x t \<in> set (buildLinks notes)} \<union> {s. edge s x \<in> set (buildLinks notes)}"
    by blast
  have a: "adjacency cm (note_id A) = {note_id B, note_id C}"
    "adjacency cm (note_id B) = {note_id A, note_id C}"
    "adjacency cm (note_id C) = {note_id A, note_id B}"
    unfolding adj edges using ids by auto
  have sel: "\<not> noSelection (Some s)" if "s \<in> {note_id A, note_id B, note_id C}" for s
    using that ids by (auto simp: noSelection_def)
  have conn: "isConnected cm s i"
    if "s \<in> {note_id A, note_id B, note_id C}" "i \<in> {note_id A, note_id B, note_id C}" for s i
    using that a by (auto simp: isConnected_adjacency)
  have nodes: "nodeOpacity (Some s) cm d = 1"
    if s: "s \<in> {note_id A, note_id B, note_id C}" and d: "d \<in> set (buildNodes notes)" for s d
  proof -
    from d have "node_id d \<in> set (map node_id (buildNodes notes))"
      by simp
    then have "node_id d \<in> {note_id A, note_id B, note_id C}"
      unfolding node_ids using ns by auto
    with s show ?thesis
      by (simp add: nodeOpacity_def sel conn)
  qed
  have links: "linkOpacity (Some s) cm l =
      (if link_source l = s \<or> link_target l = s then 1 else dimmedOpacity)"
    if s: "s \<in> {note_id A, note_id B, note_id C}" and l: "l \<in> set (buildLinks notes)" for s l
  proof -
    from l have "link_source l \<in> {note_id A, note_id B, note_id C}"
      and "link_target l \<in> {note_id A, note_id B, note_id C}"
      unfolding edges by auto
    with s have "isConnected cm s (link_source l)" "isConnected cm s (link_target l)"
      by (simp_all add: conn)
    then have "isDirectLink cm s l = (link_source l = s \<or> link_target l = s)"
      by (auto simp: isDirectLink_def Let_def)
    with s show ?thesis
      by (simp add: linkOpacity_def sel)
  qed
  from len edges cm a nodes links show ?thesis
    by (intro conjI exI[of _ cm] ballI) simp_all
qed

theorem three_cycle_highlight_witness:
  "set [mkNote ''c'' ''Gamma'' ''[[Alpha]]'', mkNote ''a'' ''Alpha'' ''[[beta]]'',
        mkNote ''b'' ''Beta'' ''[[GAMMA]]'']
     = {mkNote ''a'' ''Alpha'' ''[[beta]]'', mkNote ''b'' ''Beta'' ''[[GAMMA]]'',
        mkNote ''c'' ''Gamma'' ''[[Alpha]]''} \<and>
   distinct [foldedTitle (mkNote ''a'' ''Alpha'' ''[[beta]]''),
             foldedTitle (mkNote ''b'' ''Beta'' ''[[GAMMA]]''),
             foldedTitle (mkNote ''c'' ''Gamma'' ''[[Alpha]]'')] \<and>
   extractLinks (note_content (mkNote ''a'' ''Alpha'' ''[[beta]]'')) = [js ''beta''] \<and>
   toLowerCase (js ''beta'') = foldedTitle (mkNote ''b'' ''Beta'' ''[[GAMMA]]'') \<and>
   extractLinks (note_content (mkNote ''b'' ''Beta'' ''[[GAMMA]]'')) = [js ''GAMMA''] \<and>
   toLowerCase (js ''GAMMA'') = foldedTitle (mkNote ''c'' ''Gamma'' ''[[Alpha]]'') \<and>
   extractLinks (note_content (mkNote ''c'' ''Gamma'' ''[[Alpha]]'')) = [js ''Alpha''] \<and>
   toLowerCase (js ''Alpha'') = foldedTitle (mkNote ''a'' ''Alpha'' ''[[beta]]'') \<and>
   length (buildLinks [mkNote ''c'' ''Gamma'' ''[[Alpha]]'', mkNote ''a'' ''Alpha'' ''[[beta]]'',
        mkNote ''b'' ''Beta'' ''[[GAMMA]]'']) = 3 \<and>
   adjacency (projr (connectionMap [mkNote ''c'' ''Gamma'' ''[[Alpha]]'',
        mkNote ''a'' ''Alpha'' ''[[beta]]'', mkNote ''b'' ''Beta'' ''[[GAMMA]]''])) (js ''a'')
     = {js ''b'', js ''c''} \<and>
   nodeOpacity (Some (js ''a'')) (projr (connectionMap [mkNote ''c'' ''Gamma'' ''[[Alpha]]'',
        mkNote ''a'' ''Alpha'' ''[[beta]]'', mkNote ''b'' ''Beta'' ''[[GAMMA]]'']))
     (toNode (mkNote ''b'' ''Beta'' ''[[GAMMA]]'')) = 1 \<and>
   linkOpacity (Some (js ''a'')) (projr (connectionMap [mkNote ''c'' ''Gamma'' ''[[Alpha]]'',
        mkNote ''a'' ''Alpha'' ''[[beta]]'', mkNote ''b'' ''Beta'' ''[[GAMMA]]'']))
     (edge (js ''c'') (js ''a'')) = 1 \<and>
   linkOpacity (Some (js ''a'')) (projr (connectionMap [mkNote ''c'' ''Gamma'' ''[[Alpha]]'',
        mkNote ''a'' ''Alpha'' ''[[beta]]'', mkNote ''b'' ''Beta'' ''[[GAMMA]]'']))
     (edge (js ''b'') (js ''c'')) = dimmedOpacity"
proof -
  let ?A = "mkNote ''a'' ''Alpha'' ''[[beta]]''"
  let ?B = "mkNote ''b'' ''Beta'' ''[[GAMMA]]''"
  let ?C = "mkNote ''c'' ''Gamma'' ''[[Alpha]]''"
  let ?N = "[?C, ?A, ?B]"
  have i: "note_id ?A = js ''a''" "note_id ?B = js ''b''" "note_id ?C = js ''c''"
    by (simp_all add: mkNote_def)
  have ft: "foldedTitle ?A = js ''alpha''" "foldedTitle ?B = js ''beta''" "foldedTitle ?C = js ''gamma''"
    by (simp_all add: foldedTitle_mkNote) (simp_all add: lower_eval)
  have low: "toLowerCase (js ''beta'') = js ''beta''" "toLowerCase (js ''GAMMA'') = js ''gamma''"
    "toLowerCase (js ''Alpha'') = js ''alpha''"
    by (simp_all add: lower_eval)
  have h1: "set ?N = {?A, ?B, ?C}"
    by auto
  have h2: "length ?N = 3"
    by simp
  have h3: "distinct [note_id ?A, note_id ?B, note_id ?C]"
    "note_id ?A \<noteq> []" "note_id ?B \<noteq> []" "note_id ?C \<noteq> []"
    by (simp_all add: i)
  have h4: "distinct [foldedTitle ?A, foldedTitle ?B, foldedTitle ?C]"
    by (simp add: ft)
  have r: "extractLinks (note_content ?A) = [js ''beta'']"
    "extractLinks (note_content ?B) = [js ''GAMMA'']"
    "extractLinks (note_content ?C) = [js ''Alpha'']"
    by (simp_all add: mkNote_def link_eval)
  have m: "toLowerCase (js ''beta'') = foldedTitle ?B" "toLowerCase (js ''GAMMA'') = foldedTitle ?C"
    "toLowerCase (js ''Alpha'') = foldedTitle ?A"
    using ft low by simp_all
  note t = three_cycle_highlight[of ?N ?A ?B ?C "js ''beta''" "js ''GAMMA''" "js ''Alpha''",
      OF h1 h2 h3 h4 r(1) m(1) r(2) m(2) r(3) m(3), unfolded i]
  from t have len: "length (buildLinks ?N) = 3"
    by (rule conjunct1)
  from t have es: "set (buildLinks ?N) = {edge (js ''a'') (js ''b''), edge (js ''b'') (js ''c''), edge (js ''c'') (js ''a'')}"
    by (rule conjunct2[THEN conjunct1])
  from t have "\<exists>cm. connectionMap ?N = Inr cm \<and>
            adjacency cm (js ''a'') = {js ''b'', js ''c''} \<and>
            adjacency cm (js ''b'') = {js ''a'', js ''c''} \<and>
            adjacency cm (js ''c'') = {js ''a'', js ''b''} \<and>
            (\<forall>s\<in>{js ''a'', js ''b'', js ''c''}.
               (\<forall>d\<in>set (buildNodes ?N). nodeOpacity (Some s) cm d = 1) \<and>
               (\<forall>l\<in>set (buildLinks ?N).
                  linkOpacity (Some s) cm l =
                    (if link_source l = s \<or> link_target l = s then 1 else dimmedOpacity)))"
    by (rule conjunct2[THEN conjunct2])
  then obtain cm where all: "connectionMap ?N = Inr cm \<and>
            adjacency cm (js ''a'') = {js ''b'', js ''c''} \<and>
            adjacency cm (js ''b'') = {js ''a'', js ''c''} \<and>
            adjacency cm (js ''c'') = {js ''a'', js ''b''} \<and>
            (\<forall>s\<in>{js ''a'', js ''b'', js ''c''}.
               (\<forall>d\<in>set (buildNodes ?N). nodeOpacity (Some s) cm d = 1) \<and>
               (\<forall>l\<in>set (buildLinks ?N).
                  linkOpacity (Some s) cm l =
                    (if link_source l = s \<or> link_target l = s then 1 else dimmedOpacity)))" ..
  from all have cm: "connectionMap ?N = Inr cm"
    by (rule conjunct1)
  from all have a: "adjacency cm (js ''a'') = {js ''b'', js ''c''}"
    by (rule conjunct2[THEN conjunct1])
  from all have "\<forall>s\<in>{js ''a'', js ''b'', js ''c''}.
               (\<forall>d\<in>set (buildNodes ?N). nodeOpacity (Some s) cm d = 1) \<and>
               (\<forall>l\<in>set (buildLinks ?N).
                  linkOpacity (Some s) cm l =
                    (if link_source l = s \<or> link_target l = s then 1 else dimmedOpacity))"
    by (rule conjunct2[THEN conjunct2, THEN conjunct2, THEN conjunct2])
  then have hl: "(\<forall>d\<in>set (buildNodes ?N). nodeOpacity (Some (js ''a'')) cm d = 1) \<and>
               (\<forall>l\<in>set (buildLinks ?N).
                  linkOpacity (Some (js ''a'')) cm l =
                    (if link_source l = js ''a'' \<or> link_target l = js ''a'' then 1 else dimmedOpacity))"
    by (rule bspec) simp
  from hl have "nodeOpacity (Some (js ''a'')) cm (toNode ?B) = 1"
    by (simp add: buildNodes_def)
  moreover from hl es have "linkOpacity (Some (js ''a'')) cm (edge (js ''c'') (js ''a'')) = 1"
    and "linkOpacity (Some (js ''a'')) cm (edge (js ''b'') (js ''c'')) = dimmedOpacity"
    by simp_all
  ultimately show ?thesis
    using h1 h4 r m len cm a by simp
qed

text \<open>
  The claim as stated fails: with \<open>a\<close> selected, \<open>b\<close> and \<open>c\<close> are both in the highlight set,
  and the edge from \<open>b\<close> to \<open>c\<close> is dimmed to 0.1, since neither endpoint is the selected node.
\<close>

theorem three_cycle_highlight_counterexample:
  "buildLinks [mkNote ''a'' ''Alpha'' ''[[Beta]]'', mkNote ''b'' ''Beta'' ''[[Gamma]]'',
               mkNote ''c'' ''Gamma'' ''[[Alpha]]'']
     = [edge (js ''a'') (js ''b''), edge (js ''b'') (js ''c''), edge (js ''c'') (js ''a'')] \<and>
   isConnected (projr (connectionMap [mkNote ''a'' ''Alpha'' ''[[Beta]]'',
       mkNote ''b'' ''Beta'' ''[[Gamma]]'', mkNote ''c'' ''Gamma'' ''[[Alpha]]''])) (js ''a'') (js ''b'') \<and>
   isConnected (projr (connectionMap [mkNote ''a'' ''Alpha'' ''[[Beta]]'',
       mkNote ''b'' ''Beta'' ''[[Gamma]]'', mkNote ''c'' ''Gamma'' ''[[Alpha]]''])) (js ''a'') (js ''c'') \<and>
   linkOpacity (Some (js ''a'')) (projr (connectionMap [mkNote ''a'' ''Alpha'' ''[[Beta]]'',
       mkNote ''b'' ''Beta'' ''[[Gamma]]'', mkNote ''c'' ''Gamma'' ''[[Alpha]]'']))
     (edge (js ''b'') (js ''c'')) = 1 / 10 \<and>
   linkOpacity (Some (js ''a'')) (projr (connectionMap [mkNote ''a'' ''Alpha'' ''[[Beta]]'',
       mkNote ''b'' ''Beta'' ''[[Gamma]]'', mkNote ''c'' ''Gamma'' ''[[Alpha]]'']))
     (edge (js ''b'') (js ''c'')) \<noteq> 1"
proof -
  let ?N = "[mkNote ''a'' ''Alpha'' ''[[Beta]]'', mkNote ''b'' ''Beta'' ''[[Gamma]]'',
             mkNote ''c'' ''Gamma'' ''[[Alpha]]'']"
  have l: "buildLinks ?N = [edge (js ''a'') (js ''b''), edge (js ''b'') (js ''c''), edge (js ''c'') (js ''a'')]"
    by (simp add: links_eval link_eval lower_eval)
  have n: "neighbors (projr (connectionMap ?N)) (js ''a'') = [js ''b'', js ''c'']"
    by (simp add: connection_eval link_eval lower_eval neighbors_def)
  have c: "isConnected (projr (connectionMap ?N)) (js ''a'') (js ''b'')"
    "isConnected (projr (connectionMap ?N)) (js ''a'') (js ''c'')"
    using n by (simp_all add: isConnected_adjacency adjacency_def)
  have "\<not> isDirectLink (projr (connectionMap ?N)) (js ''a'') (edge (js ''b'') (js ''c''))"
    by (simp add: isDirectLink_def)
  then have "linkOpacity (Some (js ''a'')) (projr (connectionMap ?N)) (edge (js ''b'') (js ''c'')) = 1 / 10"
    by (simp add: linkOpacity_def noSelection_def dimmedOpacity_def)
  with l c show ?thesis by simp
qed

end
